theory Spec2Isabelle
  imports Complex_Main "HOL-Library.Log_Nat" "HOL-Library.AList"
begin

section \<open>JavaScript numbers\<close>

text \<open>
  Every number of \<^verbatim>\<open>NodeGraph.tsx\<close> (joint values, smoothness, durations, frame counts) is
  a JavaScript \<^verbatim>\<open>number\<close>, an IEEE 754 binary64 value. The finite values are modelled by
  the rationals they denote, with every arithmetic result rounded to the nearest double
  (ties to even, 53 significant bits, gradual underflow with quantum \<open>2\<^sup>-\<^sup>1\<^sup>0\<^sup>7\<^sup>4\<close>, overflow
  to an infinity from \<open>2\<^sup>1\<^sup>0\<^sup>2\<^sup>4\<close>). The rounding matters to the program: in exact
  arithmetic \<open>500 / (1000 / 60)\<close> is \<open>30\<close>, in doubles it is just below \<open>30\<close>.
  The two zeros are identified; the only division by zero the program can perform is
  \<open>0 / 0\<close>.
\<close>

text \<open>\<open>expo x\<close> is the binary exponent of a non-zero \<open>x\<close>: \<open>2\<^bsup>expo x\<^esup> \<le> \<bar>x\<bar> < 2\<^bsup>expo x + 1\<^esup>\<close>.\<close>

definition expo :: "rat \<Rightarrow> int" where
  "expo x = (if 1 \<le> \<bar>x\<bar> then bitlen \<lfloor>\<bar>x\<bar>\<rfloor> - 1 else - bitlen (\<lceil>1 / \<bar>x\<bar>\<rceil> - 1))"

definition rne :: "rat \<Rightarrow> int" where
  "rne z = (let f = \<lfloor>z\<rfloor>; d = z - of_int f in
     if d < 1 / 2 then f else if 1 / 2 < d then f + 1 else if even f then f else f + 1)"

definition quantum :: "rat \<Rightarrow> rat" where
  "quantum x = 2 powi (max (expo x - 52) (- 1074))"

definition fl_pos :: "rat \<Rightarrow> rat" where
  "fl_pos x = of_int (rne (x / quantum x)) * quantum x"

definition fl :: "rat \<Rightarrow> rat" where
  "fl x = (if x < 0 then - fl_pos (- x) else fl_pos x)"


datatype number = Fin rat | PInf | NInf | NaN

text \<open>The least magnitude that rounds to an infinity.\<close>

definition overflow_threshold :: rat where
  "overflow_threshold = 2 ^ 1024"

definition round_number :: "rat \<Rightarrow> number" where
  "round_number x = (let r = fl x in
     if overflow_threshold \<le> r then PInf else if r \<le> - overflow_threshold then NInf else Fin r)"

fun fneg :: "number \<Rightarrow> number" where
  "fneg (Fin a) = Fin (- a)"
| "fneg PInf = NInf"
| "fneg NInf = PInf"
| "fneg NaN = NaN"

fun fadd :: "number \<Rightarrow> number \<Rightarrow> number" where
  "fadd (Fin a) (Fin b) = round_number (a + b)"
| "fadd NaN y = NaN"
| "fadd x NaN = NaN"
| "fadd PInf NInf = NaN"
| "fadd NInf PInf = NaN"
| "fadd PInf y = PInf"
| "fadd x PInf = PInf"
| "fadd NInf y = NInf"
| "fadd x NInf = NInf"

definition fsub :: "number \<Rightarrow> number \<Rightarrow> number" where
  "fsub x y = fadd x (fneg y)"

fun fmul :: "number \<Rightarrow> number \<Rightarrow> number" where
  "fmul (Fin a) (Fin b) = round_number (a * b)"
| "fmul NaN y = NaN"
| "fmul x NaN = NaN"
| "fmul (Fin a) y = (if a = 0 then NaN else if 0 < a then y else fneg y)"
| "fmul x (Fin b) = (if b = 0 then NaN else if 0 < b then x else fneg x)"
| "fmul PInf y = y"
| "fmul NInf y = fneg y"

fun fdiv :: "number \<Rightarrow> number \<Rightarrow> number" where
  "fdiv (Fin a) (Fin b) =
     (if b = 0 then (if a = 0 then NaN else if 0 < a then PInf else NInf)
      else round_number (a / b))"
| "fdiv NaN y = NaN"
| "fdiv x NaN = NaN"
| "fdiv (Fin a) y = Fin 0"
| "fdiv x (Fin b) = (if 0 \<le> b then x else fneg x)"
| "fdiv x y = NaN"

text \<open>The comparisons \<^verbatim>\<open><\<close> and \<^verbatim>\<open><=\<close>: false as soon as an operand is \<^verbatim>\<open>NaN\<close>.\<close>

fun flt :: "number \<Rightarrow> number \<Rightarrow> bool" where
  "flt (Fin a) (Fin b) = (a < b)"
| "flt NaN y = False"
| "flt x NaN = False"
| "flt x NInf = False"
| "flt PInf y = False"
| "flt x y = True"

fun fle :: "number \<Rightarrow> number \<Rightarrow> bool" where
  "fle (Fin a) (Fin b) = (a \<le> b)"
| "fle NaN y = False"
| "fle x NaN = False"
| "fle NInf y = True"
| "fle x PInf = True"
| "fle x y = False"

text \<open>\<^verbatim>\<open>Math.floor\<close>.\<close>

fun ffloor :: "number \<Rightarrow> number" where
  "ffloor (Fin a) = Fin (of_int \<lfloor>a\<rfloor>)"
| "ffloor x = x"

text \<open>
  \<^verbatim>\<open>Math.pow(x, 2)\<close>, taken as the correctly rounded square. ECMAScript leaves the
  last digit of \<^verbatim>\<open>Math.pow\<close> to the implementation; the results below use only
  \<^verbatim>\<open>Math.pow(0, 2) = 0\<close> and that the square of a value of \<open>[0, 1]\<close> is in \<open>[0, 1]\<close>.
\<close>

definition pow2 :: "number \<Rightarrow> number" where
  "pow2 x = fmul x x"

definition isFinite :: "number \<Rightarrow> bool" where
  "isFinite x = (case x of Fin a \<Rightarrow> True | _ \<Rightarrow> False)"

text \<open>A finite number that is a double: rounding leaves it as it is.\<close>

definition is_double :: "number \<Rightarrow> bool" where
  "is_double x = (case x of Fin a \<Rightarrow> round_number a = Fin a | _ \<Rightarrow> False)"


section \<open>Data model\<close>

text \<open>
  The types of \<^verbatim>\<open>NodeGraph.tsx\<close> and of the store \<^verbatim>\<open>useJointStore\<close> it imports. A node
  and an edge of the flow graph keep the fields the component reads. The field \<^verbatim>\<open>value\<close>
  of a joint is \<open>val\<close> here, and the fields \<^verbatim>\<open>id\<close> and \<^verbatim>\<open>type\<close> carry a prefix.
\<close>

record JointParameter =
  name :: string
  val :: number

record TransitionOptions =
  smooth :: bool
  smoothness :: number

datatype NodeType = JointNode | TransitionNode

text \<open>
  A saved node state of the store: \<^verbatim>\<open>{ id, type, joints?, transition? }\<close>, the two optional
  fields being \<open>None\<close> when undefined.
\<close>

record NodeState =
  state_id :: string
  ntype :: NodeType
  joints :: "JointParameter list option"
  transition :: "TransitionOptions option"

record Node =
  node_id :: string
  node_type :: NodeType

record Edge =
  edge_id :: string
  source :: string
  target :: string

text \<open>A pose is a \<^verbatim>\<open>Record<string, number>\<close>: its own keys, each once, with their values.
  The keys stand in insertion order (JavaScript lists integer-like keys first); the order
  plays no part in what follows: a pose is read by joint name.\<close>

type_synonym pose = "(string \<times> number) list"

text \<open>
  A pose is a plain object, so reading a name that is not among its own keys finds what
  \<^verbatim>\<open>Object.prototype\<close> has under that name, if anything: a function, or for \<^verbatim>\<open>__proto__\<close> the
  prototype itself. The values that the interpolation meets are therefore numbers, such
  an inherited object, and the strings that \<^verbatim>\<open>+\<close> makes of an object (the text of a string
  is not modelled; all that arise end in \<^verbatim>\<open>NaN\<close>).
\<close>

datatype jsvalue = Num number | Obj | Str

text \<open>The names of the properties of \<^verbatim>\<open>Object.prototype\<close>.\<close>

definition inheritedNames :: "string list" where
  "inheritedNames =
     [''constructor'', ''__proto__'', ''hasOwnProperty'', ''isPrototypeOf'',
      ''propertyIsEnumerable'', ''toLocaleString'', ''toString'', ''valueOf'',
      ''__defineGetter__'', ''__defineSetter__'', ''__lookupGetter__'', ''__lookupSetter__'']"

text \<open>\<^verbatim>\<open>ToNumber\<close>: of an object or function, and of a string that ends in \<^verbatim>\<open>NaN\<close>, it is
  \<^verbatim>\<open>NaN\<close>.\<close>

definition toNumber :: "jsvalue \<Rightarrow> number" where
  "toNumber v = (case v of Num x \<Rightarrow> x | Obj \<Rightarrow> NaN | Str \<Rightarrow> NaN)"

text \<open>\<^verbatim>\<open>a + y\<close> for a number \<open>y\<close>: the sum of two numbers; if \<open>a\<close> is an object or a
  string, the concatenation of two strings.\<close>

definition jsAdd :: "jsvalue \<Rightarrow> number \<Rightarrow> jsvalue" where
  "jsAdd a y = (case a of Num x \<Rightarrow> Num (fadd x y) | Obj \<Rightarrow> Str | Str \<Rightarrow> Str)"

text \<open>The object that \<^verbatim>\<open>setJointValues\<close> is given, as it is at run time: own keys with values
  that are numbers in a pose, and may be strings in an interpolated pose.\<close>

type_synonym object = "(string \<times> jsvalue) list"

definition asObject :: "pose \<Rightarrow> object" where
  "asObject p = map (\<lambda>kv. (fst kv, Num (snd kv))) p"

text \<open>
  Modelled from the spec: the store \<^verbatim>\<open>useJointStore\<close>, whose source file is not among the
  sources at hand. It holds the current joint values, the saved state of every node and
  the two animation flags. \<^verbatim>\<open>getNodeState\<close> looks a node up, \<^verbatim>\<open>setJointValues\<close> merges a
  pose into the current values (the keys it does not name keep their values),
  \<^verbatim>\<open>setIsAnimating\<close> and \<^verbatim>\<open>setActiveNodeId\<close> assign one flag each.
\<close>

record JointStore =
  jointValues :: "string \<rightharpoonup> jsvalue"
  nodeStates :: "string \<rightharpoonup> NodeState"
  isAnimating :: bool
  activeNodeId :: "string option"

definition getNodeState :: "JointStore \<Rightarrow> string \<Rightarrow> NodeState option" where
  "getNodeState s nodeId = nodeStates s nodeId"

definition setJointValues :: "object \<Rightarrow> JointStore \<Rightarrow> JointStore" where
  "setJointValues p s = s\<lparr>jointValues := jointValues s ++ map_of p\<rparr>"

definition setIsAnimating :: "bool \<Rightarrow> JointStore \<Rightarrow> JointStore" where
  "setIsAnimating b s = s\<lparr>isAnimating := b\<rparr>"

definition setActiveNodeId :: "string option \<Rightarrow> JointStore \<Rightarrow> JointStore" where
  "setActiveNodeId i s = s\<lparr>activeNodeId := i\<rparr>"

text \<open>
  The state of the \<^verbatim>\<open>NodeGraph\<close> component: its nodes and edges, the focused node and
  whether an \<^verbatim>\<open>AbortController\<close> is held (\<open>False\<close> for \<^verbatim>\<open>null\<close>).
\<close>

record NodeGraph =
  nodes :: "Node list"
  edges :: "Edge list"
  focusedNodeId :: "string option"
  animationAbortController :: bool

section \<open>Deleting a node\<close>

text \<open>\<^verbatim>\<open>handleDeleteNode\<close>: two filters and the reset of the focus.\<close>

definition handleDeleteNode :: "string \<Rightarrow> NodeGraph \<Rightarrow> NodeGraph" where
  "handleDeleteNode nodeId g =
     g\<lparr> nodes := filter (\<lambda>node. node_id node \<noteq> nodeId) (nodes g),
        edges := filter (\<lambda>edge. source edge \<noteq> nodeId \<and> target edge \<noteq> nodeId) (edges g),
        focusedNodeId := (if focusedNodeId g = Some nodeId then None else focusedNodeId g) \<rparr>"

text \<open>No edge has an end that is not the id of a node.\<close>

definition no_dangling :: "NodeGraph \<Rightarrow> bool" where
  "no_dangling g =
     list_all (\<lambda>edge. source edge \<in> node_id ` set (nodes g) \<and> target edge \<in> node_id ` set (nodes g))
       (edges g)"

section \<open>The interpolation arithmetic\<close>

definition minDuration :: number where "minDuration = Fin 500"
definition maxDuration :: number where "maxDuration = Fin 5000"
definition frameRate :: number where "frameRate = Fin 60"

definition frameTime :: number where
  "frameTime = fdiv (Fin 1000) frameRate"

definition durationMs :: "number \<Rightarrow> number" where
  "durationMs s = fsub maxDuration (fmul (fdiv s (Fin 100)) (fsub maxDuration minDuration))"

definition totalFrames :: "number \<Rightarrow> number" where
  "totalFrames s = ffloor (fdiv (durationMs s) frameTime)"

definition easedT :: "number \<Rightarrow> number" where
  "easedT t = (if flt t (Fin (1 / 2)) then fmul (fmul (Fin 2) t) t
               else fsub (Fin 1) (fdiv (pow2 (fadd (fmul (Fin (- 2)) t) (Fin 2))) (Fin 2)))"

text \<open>\<^verbatim>\<open>Object.fromEntries(joints.map((j) => [j.name, j.value]))\<close>: a later entry of a name
  replaces the value of the earlier one.\<close>

definition fromEntries :: "JointParameter list \<Rightarrow> pose" where
  "fromEntries js = foldl (\<lambda>obj j. AList.update (name j) (val j) obj) [] js"

text \<open>\<^verbatim>\<open>pose[jointName] ?? 0\<close>: the pose's own value; else what the prototype has under the
  name, which is neither \<^verbatim>\<open>null\<close> nor \<^verbatim>\<open>undefined\<close>; else 0.\<close>

definition valueOr0 :: "pose \<Rightarrow> string \<Rightarrow> jsvalue" where
  "valueOr0 p jointName =
     (case map_of p jointName of
        Some v \<Rightarrow> Num v
      | None \<Rightarrow> if jointName \<in> set inheritedNames then Obj else Num (Fin 0))"

text \<open>\<^verbatim>\<open>new Set([...Object.keys(previousJointPose), ...Object.keys(nextJointPose)])\<close>.\<close>

definition allJointNames :: "pose \<Rightarrow> pose \<Rightarrow> string list" where
  "allJointNames p n =
     foldl (\<lambda>names k. if k \<in> set names then names else names @ [k]) [] (map fst p @ map fst n)"

text \<open>\<^verbatim>\<open>startValue + (endValue - startValue) * easedT\<close>.\<close>

definition interpolatedValue :: "pose \<Rightarrow> pose \<Rightarrow> number \<Rightarrow> string \<Rightarrow> jsvalue" where
  "interpolatedValue p n e jointName =
     (let startValue = valueOr0 p jointName; endValue = valueOr0 n jointName
      in jsAdd startValue (fmul (fsub (toNumber endValue) (toNumber startValue)) e))"

text \<open>The pose of one frame, \<open>frame\<close> out of \<open>count\<close> (the value of \<^verbatim>\<open>totalFrames\<close>). It
  starts as \<^verbatim>\<open>{}\<close> and is assigned to name by name; the assignment of a number or a string
  to \<^verbatim>\<open>__proto__\<close> is ignored, so that name never is an own key of the frame's pose.\<close>

definition interpolatedPose :: "pose \<Rightarrow> pose \<Rightarrow> number \<Rightarrow> nat \<Rightarrow> object" where
  "interpolatedPose p n count frame =
     (let t = fdiv (Fin (of_nat frame)) count
      in map (\<lambda>jointName. (jointName, interpolatedValue p n (easedT t) jointName))
           (filter (\<lambda>jointName. jointName \<noteq> ''__proto__'') (allJointNames p n)))"

section \<open>The playback run\<close>

text \<open>
  What a run does to the outside: the calls of the store's setters, of the component's
  \<^verbatim>\<open>setAnimationAbortController\<close>, of \<^verbatim>\<open>toast.error\<close> and \<^verbatim>\<open>console.error\<close>, and the timers
  it waits for (\<^verbatim>\<open>await new Promise((resolve) => setTimeout(resolve, ms))\<close>).
\<close>

datatype event =
    SetAnimationAbortController bool
  | SetIsAnimating bool
  | SetActiveNodeId "string option"
  | SetStoreJointValues object
  | Wait rat
  | ToastError string
  | ConsoleError

text \<open>
  The surroundings of a run: the instant (in ms after the start of the run) at which
  \<^verbatim>\<open>stopAnimation\<close> aborts the controller, if it ever does, and the call of a store
  function inside the \<^verbatim>\<open>try\<close> block (counted from 0) that throws, if one does.
\<close>

record env =
  cancelAt :: "rat option"
  faultAt :: "nat option"

text \<open>
  The run so far: the clock, the number of store calls made inside the \<^verbatim>\<open>try\<close> block,
  and the events with the instant of each. A timer lasts as long as its delay.
\<close>

record world =
  now :: rat
  calls :: nat
  log :: "(rat \<times> event) list"

definition aborted :: "env \<Rightarrow> world \<Rightarrow> bool" where
  "aborted en w = (case cancelAt en of None \<Rightarrow> False | Some c \<Rightarrow> c \<le> now w)"

definition throws :: "env \<Rightarrow> world \<Rightarrow> bool" where
  "throws en w = (faultAt en = Some (calls w))"

definition called :: "world \<Rightarrow> world" where
  "called w = w\<lparr>calls := Suc (calls w)\<rparr>"

definition emit :: "event \<Rightarrow> world \<Rightarrow> world" where
  "emit ev w = w\<lparr>log := log w @ [(now w, ev)]\<rparr>"

text \<open>\<^verbatim>\<open>setTimeout\<close> takes a delay that is not a positive number as \<open>0\<close>.\<close>

definition delay :: "number \<Rightarrow> rat" where
  "delay d = (case d of Fin r \<Rightarrow> max r 0 | _ \<Rightarrow> 0)"

definition wait :: "number \<Rightarrow> world \<Rightarrow> world" where
  "wait d w = w\<lparr>now := now w + delay d, log := log w @ [(now w, Wait (delay d))]\<rparr>"

datatype completion = Normal | Thrown

datatype flow = Continue | Break | Throw

record loopState =
  currentNodeId :: string
  previousJointPose :: "pose option"
  skipNextJointApplication :: bool

text \<open>
  The \<^verbatim>\<open>for\<close> loop of a smooth transition. It may not end (\<^verbatim>\<open>totalFrames\<close> is
  \<^verbatim>\<open>Infinity\<close> for a smoothness of \<^verbatim>\<open>-Infinity\<close>), so it runs on fuel: \<open>None\<close> when the
  fuel is used up. The counter \<^verbatim>\<open>frame\<close> takes the values 0, 1, 2, \<dots>, which are exact in
  doubles below \<open>2\<^sup>5\<^sup>3\<close>.
\<close>

fun frameLoop ::
  "nat \<Rightarrow> env \<Rightarrow> pose \<Rightarrow> pose \<Rightarrow> number \<Rightarrow> nat \<Rightarrow> world \<Rightarrow> (completion \<times> world) option" where
  "frameLoop 0 en p n count frame w = None"
| "frameLoop (Suc fuel) en p n count frame w =
     (if fle (Fin (of_nat frame)) count \<and> \<not> aborted en w then
        (if throws en w then Some (Thrown, w)
         else frameLoop fuel en p n count (Suc frame)
                (wait frameTime (emit (SetStoreJointValues (interpolatedPose p n count frame)) (called w))))
      else Some (Normal, w))"

text \<open>The end of the loop body: follow the first edge that leaves the current node.\<close>

definition advance :: "Edge list \<Rightarrow> loopState \<Rightarrow> loopState" where
  "advance es ls =
     ls\<lparr>currentNodeId := (case find (\<lambda>edge. source edge = currentNodeId ls) es of
                             Some nextEdge \<Rightarrow> target nextEdge | None \<Rightarrow> [])\<rparr>"

text \<open>The branch of a joint node with joints.\<close>

definition jointStep ::
  "env \<Rightarrow> JointParameter list \<Rightarrow> loopState \<Rightarrow> world \<Rightarrow> flow \<times> loopState \<times> world" where
  "jointStep en js ls w =
     (let pose = fromEntries js in
      if \<not> skipNextJointApplication ls then
        (if throws en w then (Throw, ls, w)
         else (Continue, ls\<lparr>previousJointPose := Some pose\<rparr>,
               wait (Fin 1000) (emit (SetStoreJointValues (asObject pose)) (called w))))
      else (Continue, ls\<lparr>skipNextJointApplication := False, previousJointPose := Some pose\<rparr>,
            wait (Fin 100) w))"

text \<open>The pose of the joint node that the first outgoing edge leads to, if there is one.\<close>

definition nextJointPose :: "NodeGraph \<Rightarrow> JointStore \<Rightarrow> string \<Rightarrow> pose option" where
  "nextJointPose g s nodeId =
     (case find (\<lambda>edge. source edge = nodeId) (edges g) of
        None \<Rightarrow> None
      | Some nextEdge \<Rightarrow>
          (case getNodeState s (target nextEdge) of
             None \<Rightarrow> None
           | Some nextNodeState \<Rightarrow>
               (case joints nextNodeState of
                  Some js \<Rightarrow> if ntype nextNodeState = JointNode then Some (fromEntries js) else None
                | None \<Rightarrow> None)))"

text \<open>The branch of a transition node with options. The second \<^verbatim>\<open>getNodeState\<close> is called
  only when the node has an outgoing edge.\<close>

definition transitionStep ::
  "nat \<Rightarrow> env \<Rightarrow> NodeGraph \<Rightarrow> JointStore \<Rightarrow> TransitionOptions \<Rightarrow> loopState \<Rightarrow> world \<Rightarrow>
   (flow \<times> loopState \<times> world) option" where
  "transitionStep fuel en g s opts ls w =
     (let hasEdge = (find (\<lambda>edge. source edge = currentNodeId ls) (edges g) \<noteq> None) in
      if hasEdge \<and> throws en w then Some (Throw, ls, w)
      else
        (let w1 = (if hasEdge then called w else w) in
         case (smooth opts, previousJointPose ls, nextJointPose g s (currentNodeId ls)) of
           (True, Some p, Some n) \<Rightarrow>
             (case frameLoop fuel en p n (totalFrames (smoothness opts)) 0 w1 of
                None \<Rightarrow> None
              | Some (Thrown, w2) \<Rightarrow> Some (Throw, ls, w2)
              | Some (Normal, w2) \<Rightarrow> Some (Continue, ls\<lparr>skipNextJointApplication := True\<rparr>, w2))
         | _ \<Rightarrow> Some (Continue, ls, wait (Fin 500) w1)))"

text \<open>One pass through the body of the \<^verbatim>\<open>while\<close> loop.\<close>

definition body ::
  "nat \<Rightarrow> env \<Rightarrow> NodeGraph \<Rightarrow> JointStore \<Rightarrow> loopState \<Rightarrow> world \<Rightarrow> (flow \<times> loopState \<times> world) option" where
  "body fuel en g s ls w =
     (if throws en w then Some (Throw, ls, w)
      else
        (let w1 = emit (SetActiveNodeId (Some (currentNodeId ls))) (called w);
             currentNode = find (\<lambda>n. node_id n = currentNodeId ls) (nodes g)
         in if throws en w1 then Some (Throw, ls, w1)
            else
              (let w2 = called w1 in
               case (currentNode, getNodeState s (currentNodeId ls)) of
                 (Some cn, Some nodeState) \<Rightarrow>
                   (case (ntype nodeState, joints nodeState, transition nodeState) of
                      (JointNode, Some js, _) \<Rightarrow>
                        (case jointStep en js ls w2 of
                           (Continue, ls', w3) \<Rightarrow> Some (Continue, advance (edges g) ls', w3)
                         | r \<Rightarrow> Some r)
                    | (TransitionNode, _, Some opts) \<Rightarrow>
                        (case transitionStep fuel en g s opts ls w2 of
                           Some (Continue, ls', w3) \<Rightarrow> Some (Continue, advance (edges g) ls', w3)
                         | r \<Rightarrow> r)
                    | _ \<Rightarrow> Some (Continue, advance (edges g) ls, w2))
               | _ \<Rightarrow> Some (Break, ls, w2))))"

text \<open>The \<^verbatim>\<open>while\<close> loop, on fuel: a chain that runs into a cycle never ends by itself.\<close>

fun loop ::
  "nat \<Rightarrow> env \<Rightarrow> NodeGraph \<Rightarrow> JointStore \<Rightarrow> loopState \<Rightarrow> world \<Rightarrow> (completion \<times> loopState \<times> world) option" where
  "loop 0 en g s ls w = None"
| "loop (Suc fuel) en g s ls w =
     (if currentNodeId ls \<noteq> [] \<and> \<not> aborted en w then
        (case body fuel en g s ls w of
           None \<Rightarrow> None
         | Some (Throw, ls', w') \<Rightarrow> Some (Thrown, ls', w')
         | Some (Break, ls', w') \<Rightarrow> Some (Normal, ls', w')
         | Some (Continue, ls', w') \<Rightarrow> loop fuel en g s ls' w')
      else Some (Normal, ls, w))"

definition startNodes :: "NodeGraph \<Rightarrow> Node list" where
  "startNodes g = filter (\<lambda>node. \<not> list_ex (\<lambda>edge. target edge = node_id node) (edges g)) (nodes g)"

definition noStartNode :: string where
  "noStartNode = ''No starting node found. Add a node without incoming connections.''"

definition animationError :: string where
  "animationError = ''Animation encountered an error''"

text \<open>
  \<^verbatim>\<open>runAnimation\<close>, with the values its closure holds: the graph and the store, whose
  saved node states are taken not to change while the run goes on. The result is the
  list of what it did, each event with its instant, or \<open>None\<close> when the fuel does not
  reach the end of the run.
\<close>

definition runAnimation ::
  "nat \<Rightarrow> env \<Rightarrow> NodeGraph \<Rightarrow> JointStore \<Rightarrow> (rat \<times> event) list option" where
  "runAnimation fuel en g s =
     (if isAnimating s then Some []
      else case startNodes g of
        [] \<Rightarrow> Some [(0, ToastError noStartNode)]
      | start # _ \<Rightarrow>
          (let w0 = emit (SetIsAnimating True) (emit (SetAnimationAbortController True)
                      \<lparr>now = 0, calls = 0, log = []\<rparr>);
               ls0 = \<lparr>currentNodeId = node_id start, previousJointPose = None,
                      skipNextJointApplication = False\<rparr>
           in case loop fuel en g s ls0 w0 of
                None \<Rightarrow> None
              | Some (c, ls, w) \<Rightarrow>
                  (let w1 = (case c of Normal \<Rightarrow> w
                                    | Thrown \<Rightarrow> emit (ToastError animationError) (emit ConsoleError w))
                   in Some (log (emit (SetAnimationAbortController False)
                                  (emit (SetActiveNodeId None) (emit (SetIsAnimating False) w1)))))))"

section \<open>The store and the component while a run goes on\<close>

text \<open>The effect of one event on the store, and on the component.\<close>

fun apply_store :: "event \<Rightarrow> JointStore \<Rightarrow> JointStore" where
  "apply_store (SetIsAnimating b) s = setIsAnimating b s"
| "apply_store (SetActiveNodeId i) s = setActiveNodeId i s"
| "apply_store (SetStoreJointValues p) s = setJointValues p s"
| "apply_store ev s = s"

fun apply_component :: "event \<Rightarrow> NodeGraph \<Rightarrow> NodeGraph" where
  "apply_component (SetAnimationAbortController b) g = g\<lparr>animationAbortController := b\<rparr>"
| "apply_component ev g = g"

definition store_after :: "event list \<Rightarrow> JointStore \<Rightarrow> JointStore" where
  "store_after evs s = foldl (\<lambda>s ev. apply_store ev s) s evs"

definition component_after :: "event list \<Rightarrow> NodeGraph \<Rightarrow> NodeGraph" where
  "component_after evs g = foldl (\<lambda>g ev. apply_component ev g) g evs"

definition flags_agree :: "JointStore \<Rightarrow> bool" where
  "flags_agree s = ((activeNodeId s \<noteq> None) = isAnimating s)"


section \<open>Example graphs\<close>

text \<open>
  The chain \<open>a \<rightarrow> t \<rightarrow> b\<close> of a pose, a smooth transition of smoothness 100 and a second
  pose, over one joint \<open>j\<close> that goes from \<open>-5\<close> to \<open>0.1\<close> (the double nearest to it); and
  a graph of two nodes on a cycle, which has no start node.
\<close>

definition tenth :: rat where
  "tenth = 3602879701896397 / 36028797018963968"

definition state_a :: NodeState where
  "state_a = \<lparr>state_id = ''a'', ntype = JointNode,
     joints = Some [\<lparr>name = ''j'', val = Fin (- 5)\<rparr>], transition = None\<rparr>"

definition state_t :: NodeState where
  "state_t = \<lparr>state_id = ''t'', ntype = TransitionNode,
     joints = None, transition = Some \<lparr>smooth = True, smoothness = Fin 100\<rparr>\<rparr>"

definition state_b :: NodeState where
  "state_b = \<lparr>state_id = ''b'', ntype = JointNode,
     joints = Some [\<lparr>name = ''j'', val = Fin tenth\<rparr>], transition = None\<rparr>"

definition chain :: NodeGraph where
  "chain = \<lparr>nodes = [\<lparr>node_id = ''a'', node_type = JointNode\<rparr>,
                     \<lparr>node_id = ''t'', node_type = TransitionNode\<rparr>,
                     \<lparr>node_id = ''b'', node_type = JointNode\<rparr>],
            edges = [\<lparr>edge_id = ''e1'', source = ''a'', target = ''t''\<rparr>,
                     \<lparr>edge_id = ''e2'', source = ''t'', target = ''b''\<rparr>],
            focusedNodeId = Some ''t'', animationAbortController = False\<rparr>"

definition chain_store :: JointStore where
  "chain_store = \<lparr>jointValues = Map.empty,
     nodeStates = [''a'' \<mapsto> state_a, ''t'' \<mapsto> state_t, ''b'' \<mapsto> state_b],
     isAnimating = False, activeNodeId = None\<rparr>"

definition cycle :: NodeGraph where
  "cycle = \<lparr>nodes = [\<lparr>node_id = ''a'', node_type = JointNode\<rparr>,
                     \<lparr>node_id = ''b'', node_type = JointNode\<rparr>],
            edges = [\<lparr>edge_id = ''e1'', source = ''a'', target = ''b''\<rparr>,
                     \<lparr>edge_id = ''e2'', source = ''b'', target = ''a''\<rparr>],
            focusedNodeId = None, animationAbortController = False\<rparr>"

definition single :: NodeGraph where
  "single = \<lparr>nodes = [\<lparr>node_id = ''a'', node_type = JointNode\<rparr>], edges = [],
             focusedNodeId = None, animationAbortController = False\<rparr>"

definition undisturbed :: env where
  "undisturbed = \<lparr>cancelAt = None, faultAt = None\<rparr>"


section \<open>Predicates on the events of a run\<close>

text \<open>The run has not been cancelled at the instant \<open>t\<close>: the negation of \<^verbatim>\<open>signal.aborted\<close>.\<close>

definition not_cancelled :: "env \<Rightarrow> rat \<Rightarrow> bool" where
  "not_cancelled en t = (case cancelAt en of None \<Rightarrow> True | Some c \<Rightarrow> t < c)"

text \<open>What a branch of the loop body may do: wait, and publish joint values at an
  instant at which the run has not been cancelled.\<close>

fun step_event :: "env \<Rightarrow> rat \<times> event \<Rightarrow> bool" where
  "step_event en (t, Wait d) = True"
| "step_event en (t, SetStoreJointValues q) = not_cancelled en t"
| "step_event en (t, ev) = False"

text \<open>What the loop may do: that, and make a node the active one, again at an instant at
  which the run has not been cancelled.\<close>

fun loop_event :: "env \<Rightarrow> rat \<times> event \<Rightarrow> bool" where
  "loop_event en (t, SetActiveNodeId (Some i)) = not_cancelled en t"
| "loop_event en (t, ev) = step_event en (t, ev)"

fun is_activation :: "rat \<times> event \<Rightarrow> bool" where
  "is_activation (t, SetActiveNodeId (Some i)) = True"
| "is_activation (t, ev) = False"

definition starts_with_activation :: "(rat \<times> event) list \<Rightarrow> bool" where
  "starts_with_activation evs = (case evs of [] \<Rightarrow> True | x # xs \<Rightarrow> is_activation x)"

text \<open>The two flags of the store agree whenever the run waits for a timer: the events are
  replayed on the store, which is looked at before each \<open>Wait\<close>.\<close>

fun flags_at_waits :: "JointStore \<Rightarrow> event list \<Rightarrow> bool" where
  "flags_at_waits s [] = True"
| "flags_at_waits s (Wait d # evs) = (flags_agree s \<and> flags_at_waits s evs)"
| "flags_at_waits s (ev # evs) = flags_at_waits (apply_store ev s) evs"

text \<open>The two flags agree at every instant of a run other than those from a
  \<^verbatim>\<open>setIsAnimating\<close> call to the \<^verbatim>\<open>setActiveNodeId\<close> call that follows it: the events are
  replayed on the store, which is looked at before each event and after the last one,
  unless a \<^verbatim>\<open>setIsAnimating\<close> call is \<open>pending\<close>, that is, the last call of one of the two
  setters was a \<^verbatim>\<open>setIsAnimating\<close> call.\<close>

fun pending_after :: "event \<Rightarrow> bool \<Rightarrow> bool" where
  "pending_after (SetIsAnimating b) pending = True"
| "pending_after (SetActiveNodeId i) pending = False"
| "pending_after ev pending = pending"

fun flags_settled :: "bool \<Rightarrow> JointStore \<Rightarrow> event list \<Rightarrow> bool" where
  "flags_settled pending s [] = (pending \<or> flags_agree s)"
| "flags_settled pending s (ev # evs) =
     ((pending \<or> flags_agree s) \<and> flags_settled (pending_after ev pending) (apply_store ev s) evs)"

text \<open>The world after \<open>k\<close> frames of a smooth transition that nothing disturbs, from the
  frame \<open>frame\<close> on.\<close>

fun play_frames :: "pose \<Rightarrow> pose \<Rightarrow> number \<Rightarrow> nat \<Rightarrow> nat \<Rightarrow> world \<Rightarrow> world" where
  "play_frames p n count frame 0 w = w"
| "play_frames p n count frame (Suc k) w =
     play_frames p n count (Suc frame) k
       (wait frameTime (emit (SetStoreJointValues (interpolatedPose p n count frame)) (called w)))"

text \<open>The values of an object are all finite numbers.\<close>

definition finite_value :: "jsvalue \<Rightarrow> bool" where
  "finite_value v = (case v of Num x \<Rightarrow> isFinite x | Obj \<Rightarrow> False | Str \<Rightarrow> False)"

definition finite_pose :: "object \<Rightarrow> bool" where
  "finite_pose q = list_all (\<lambda>kv. finite_value (snd kv)) q"

text \<open>The joint values of a pose are finite and of magnitude at most \<open>2\<^sup>1\<^sup>0\<^sup>2\<^sup>3 - 2\<^sup>9\<^sup>7\<^sup>0\<close>,
  the largest double below \<open>2\<^sup>1\<^sup>0\<^sup>2\<^sup>3\<close>: every double of magnitude below \<open>2\<^sup>1\<^sup>0\<^sup>2\<^sup>3\<close> is
  such a value (\<open>double_is_moderate\<close>).\<close>

definition moderate :: "number \<Rightarrow> bool" where
  "moderate v = (case v of Fin a \<Rightarrow> \<bar>a\<bar> \<le> 2 ^ 1023 - 2 ^ 970 | _ \<Rightarrow> False)"

definition moderate_pose :: "pose \<Rightarrow> bool" where
  "moderate_pose p = list_all (\<lambda>kv. moderate (snd kv)) p"

text \<open>Every joint name that the interpolation reads is an own key of the pose it is read
  from, or is not a name that a plain object inherits: each name of the two poses other
  than \<^verbatim>\<open>__proto__\<close> (which the frame's pose never has) that \<^verbatim>\<open>Object.prototype\<close> has is a key
  of both poses.\<close>

definition reads_own :: "pose \<Rightarrow> pose \<Rightarrow> bool" where
  "reads_own p n =
     list_all (\<lambda>k. k \<in> set inheritedNames \<longrightarrow>
                      k = ''__proto__'' \<or> (map_of p k \<noteq> None \<and> map_of n k \<noteq> None))
       (map fst p @ map fst n)"

text \<open>The duration of a smoothness \<open>s\<close> as a rational, for \<open>s\<close> between 0 and 100.\<close>

definition dur :: "rat \<Rightarrow> rat" where
  "dur s = fl (5000 - fl (fl (s / 100) * 4500))"


section \<open>Example runs\<close>

text \<open>
  The events of a run that applies the pose of \<open>a\<close>, waits a second and ends; and those
  of a run whose first \<^verbatim>\<open>setJointValues\<close> throws.
\<close>

definition one_pose_run :: "(rat \<times> event) list" where
  "one_pose_run =
     [(0, SetAnimationAbortController True), (0, SetIsAnimating True),
      (0, SetActiveNodeId (Some ''a'')), (0, SetStoreJointValues [(''j'', Num (Fin (- 5)))]),
      (0, Wait 1000),
      (1000, SetIsAnimating False), (1000, SetActiveNodeId None),
      (1000, SetAnimationAbortController False)]"

definition faulty_run :: "(rat \<times> event) list" where
  "faulty_run =
     [(0, SetAnimationAbortController True), (0, SetIsAnimating True),
      (0, SetActiveNodeId (Some ''a'')),
      (0, ConsoleError), (0, ToastError animationError),
      (0, SetIsAnimating False), (0, SetActiveNodeId None),
      (0, SetAnimationAbortController False)]"

text \<open>The loop on the chain: at the start node \<open>a\<close>; at the transition \<open>t\<close>, one second
  into the run; at \<open>b\<close> once the transition is over; and after \<open>b\<close>.\<close>

definition pose_a :: pose where
  "pose_a = [(''j'', Fin (- 5))]"

definition pose_b :: pose where
  "pose_b = [(''j'', Fin tenth)]"

definition at_a :: loopState where
  "at_a = \<lparr>currentNodeId = ''a'', previousJointPose = None, skipNextJointApplication = False\<rparr>"

definition world_at_a :: world where
  "world_at_a = emit (SetIsAnimating True) (emit (SetAnimationAbortController True)
     \<lparr>now = 0, calls = 0, log = []\<rparr>)"

definition at_t :: loopState where
  "at_t = \<lparr>currentNodeId = ''t'', previousJointPose = Some pose_a,
           skipNextJointApplication = False\<rparr>"

definition world_at_t :: world where
  "world_at_t = \<lparr>now = 1000, calls = 3,
     log = [(0, SetAnimationAbortController True), (0, SetIsAnimating True),
            (0, SetActiveNodeId (Some ''a'')), (0, SetStoreJointValues [(''j'', Num (Fin (- 5)))]),
            (0, Wait 1000)]\<rparr>"

definition at_b :: loopState where
  "at_b = \<lparr>currentNodeId = ''b'', previousJointPose = Some pose_a,
           skipNextJointApplication = True\<rparr>"

definition world_at_b :: world where
  "world_at_b = play_frames pose_a pose_b (Fin 29) 0 30
     (called (called (emit (SetActiveNodeId (Some ''t'')) (called world_at_t))))"

definition world_after_b :: world where
  "world_after_b = wait (Fin 100) (called (emit (SetActiveNodeId (Some ''b'')) (called world_at_b)))"

definition after_b :: loopState where
  "after_b = \<lparr>currentNodeId = [], previousJointPose = Some pose_b,
              skipNextJointApplication = False\<rparr>"

text \<open>Two poses of the joint \<open>j\<close> at the doubles \<open>2\<^sup>1\<^sup>0\<^sup>2\<^sup>3\<close> and \<open>-2\<^sup>1\<^sup>0\<^sup>2\<^sup>3\<close>.\<close>

definition huge_pose :: pose where
  "huge_pose = [(''j'', Fin (2 ^ 1023))]"

definition minus_huge_pose :: pose where
  "minus_huge_pose = [(''j'', Fin (- (2 ^ 1023)))]"


text \<open>Two poses with no joint in common, one of which is named \<open>constructor\<close>.\<close>

definition pose_j :: pose where
  "pose_j = [(''j'', Fin 1)]"

definition pose_constructor :: pose where
  "pose_constructor = [(''constructor'', Fin 2)]"
section \<open>The setters of the store\<close>

declare setJointValues_def [simp] setIsAnimating_def [simp] setActiveNodeId_def [simp]

section \<open>Rounding is monotone\<close>

lemma overflow_threshold_code [code]:
  "overflow_threshold =
     179769313486231590772930519078902473361797697894230657273430081157732675805500963132708477322407536021120113879871393357658789768814416622492847430639474124377767893424865485276302219601246094119453082952085005768838150682342462881473913110540827237163350510684586298239947245938479716304835356329624224137216"
  by (simp add: overflow_threshold_def)

lemma rne_of_int: "rne (of_int n) = n"
  by (simp add: rne_def)

lemma rne_range: "\<lfloor>z\<rfloor> \<le> rne z \<and> rne z \<le> \<lfloor>z\<rfloor> + 1"
  by (simp add: rne_def Let_def)

lemma rne_mono: assumes "x \<le> y" shows "rne x \<le> rne y"
proof (cases "\<lfloor>x\<rfloor> = \<lfloor>y\<rfloor>")
  case True
  have "x - of_int \<lfloor>y\<rfloor> \<le> y - of_int \<lfloor>y\<rfloor>" using assms by simp
  then show ?thesis using True
    by (auto simp add: rne_def Let_def)
next
  case False
  have "\<lfloor>x\<rfloor> \<le> \<lfloor>y\<rfloor>" using assms by (rule floor_mono)
  with False have "\<lfloor>x\<rfloor> + 1 \<le> \<lfloor>y\<rfloor>" by simp
  then show ?thesis using rne_range [of x] rne_range [of y] by linarith
qed

lemma pow2_nat: "0 \<le> k \<Longrightarrow> (2::rat) powi k = 2 ^ nat k"
  by (simp add: power_int_def)

lemma expo_ge1:
  assumes "1 \<le> \<bar>x\<bar>"
  shows "2 powi expo x \<le> \<bar>x\<bar>" and "\<bar>x\<bar> < 2 powi (expo x + 1)"
proof -
  define n where "n = \<lfloor>\<bar>x\<bar>\<rfloor>"
  have n1: "1 \<le> n" using assms by (simp add: n_def le_floor_iff)
  then have n0: "0 < n" by simp
  have e: "expo x = bitlen n - 1" using assms by (simp add: expo_def n_def)
  have b1: "1 \<le> bitlen n" using n0 bitlen_eq_zero_iff [of n] bitlen_nonneg [of n] by linarith
  from bitlen_bounds [OF n0]
  have lo: "2 ^ nat (bitlen n - 1) \<le> n" and hi: "n < 2 ^ nat (bitlen n)" by simp_all
  have "(2::rat) powi expo x = of_int (2 ^ nat (bitlen n - 1))"
    using b1 by (simp add: e pow2_nat)
  also have "\<dots> \<le> of_int n" using lo by (simp only: of_int_le_iff)
  also have "\<dots> \<le> \<bar>x\<bar>" by (simp add: n_def)
  finally show "2 powi expo x \<le> \<bar>x\<bar>" .
  have "\<bar>x\<bar> < of_int (n + 1)" using floor_correct [of "\<bar>x\<bar>"] by (simp add: n_def)
  also have "\<dots> \<le> of_int (2 ^ nat (bitlen n))" using hi by (simp only: of_int_le_iff; simp)
  also have "\<dots> = (2::rat) powi (expo x + 1)" using b1 by (simp add: e pow2_nat)
  finally show "\<bar>x\<bar> < 2 powi (expo x + 1)" .
qed

lemma expo_lt1:
  assumes "x \<noteq> 0" and "\<bar>x\<bar> < 1"
  shows "2 powi expo x \<le> \<bar>x\<bar>" and "\<bar>x\<bar> < 2 powi (expo x + 1)"
proof -
  define y where "y = 1 / \<bar>x\<bar>"
  define m where "m = \<lceil>y\<rceil> - 1"
  define k where "k = bitlen m"
  have ax: "0 < \<bar>x\<bar>" using assms by simp
  have y1: "1 < y" using assms ax by (simp add: y_def)
  have "1 < \<lceil>y\<rceil>" using y1 by (simp add: less_ceiling_iff)
  then have m0: "0 < m" by (simp add: m_def)
  have e: "expo x = - k" using assms by (simp add: expo_def k_def m_def y_def)
  have k1: "1 \<le> k" using m0 bitlen_eq_zero_iff [of m] bitlen_nonneg [of m] unfolding k_def by linarith
  from bitlen_bounds [OF m0]
  have lo: "2 ^ nat (k - 1) \<le> m" and hi: "m < 2 ^ nat k" by (simp_all add: k_def)
  have my: "of_int m < y" using ceiling_correct [of y] by (simp add: m_def)
  have ym: "y \<le> of_int (m + 1)" by (simp add: m_def)
  have "y \<le> of_int (m + 1)" by (rule ym)
  also have "\<dots> \<le> of_int (2 ^ nat k)" using hi by (simp only: of_int_le_iff; simp)
  also have "\<dots> = (2::rat) ^ nat k" by simp
  finally have yk: "y \<le> 2 ^ nat k" .
  have "(2::rat) ^ nat (k - 1) = of_int (2 ^ nat (k - 1))" by simp
  also have "\<dots> \<le> of_int m" using lo by (simp only: of_int_le_iff)
  also have "\<dots> < y" by (rule my)
  finally have ky: "2 ^ nat (k - 1) < y" .
  have p1: "(2::rat) powi expo x = 1 / 2 ^ nat k"
    using k1 by (simp add: e power_int_def field_simps)
  have p2: "(2::rat) powi (expo x + 1) = 1 / 2 ^ nat (k - 1)"
    using k1 by (simp add: e power_int_def field_simps nat_diff_distrib)
  have xy: "\<bar>x\<bar> = 1 / y" by (simp add: y_def)
  have y0: "0 < y" using y1 by simp
  show "2 powi expo x \<le> \<bar>x\<bar>"
    unfolding p1 xy using yk y0 by (simp add: field_simps)
  show "\<bar>x\<bar> < 2 powi (expo x + 1)"
    unfolding p2 xy using ky y0 by (simp add: field_simps)
qed

lemma expo_bounds:
  assumes "x \<noteq> 0"
  shows "2 powi expo x \<le> \<bar>x\<bar>" and "\<bar>x\<bar> < 2 powi (expo x + 1)"
  using assms expo_ge1 [of x] expo_lt1 [of x] by (cases "1 \<le> \<bar>x\<bar>"; simp)+

lemma expo_mono:
  assumes "0 < x" and "x \<le> y"
  shows "expo x \<le> expo y"
proof (rule ccontr)
  assume "\<not> expo x \<le> expo y"
  then have "expo y + 1 \<le> expo x" by simp
  then have "(2::rat) powi (expo y + 1) \<le> 2 powi expo x"
    by (intro power_int_increasing) simp_all
  moreover have "\<bar>y\<bar> < 2 powi (expo y + 1)" using assms by (intro expo_bounds) simp
  moreover have "2 powi expo x \<le> \<bar>x\<bar>" using assms by (intro expo_bounds) simp
  ultimately show False using assms by simp
qed


lemma quantum_pos: "0 < quantum x"
  by (simp add: quantum_def)

lemma grid_le:
  assumes "0 < g" and "x \<le> of_int m * g"
  shows "of_int (rne (x / g)) * g \<le> of_int m * g"
proof -
  have "x / g \<le> of_int m" using assms by (simp add: field_simps)
  then have "rne (x / g) \<le> m" using rne_mono [of "x / g" "of_int m"] by (simp add: rne_of_int)
  then have "(of_int (rne (x / g)) :: rat) \<le> of_int m" by simp
  then show ?thesis using assms(1) by (simp add: mult_right_mono)
qed

lemma grid_ge:
  assumes "0 < g" and "of_int m * g \<le> x"
  shows "of_int m * g \<le> of_int (rne (x / g)) * g"
proof -
  have "of_int m \<le> x / g" using assms by (simp add: field_simps)
  then have "m \<le> rne (x / g)" using rne_mono [of "of_int m" "x / g"] by (simp add: rne_of_int)
  then have "(of_int m :: rat) \<le> of_int (rne (x / g))" by simp
  then show ?thesis using assms(1) by (simp add: mult_right_mono)
qed

lemma fl_pos_nonneg: "0 \<le> x \<Longrightarrow> 0 \<le> fl_pos x"
  using grid_ge [of "quantum x" 0 x] by (simp add: fl_pos_def quantum_pos)

lemma fl_pos_zero: "fl_pos 0 = 0"
  by (simp add: fl_pos_def rne_def)

lemma pow2_split:
  assumes "k \<le> e"
  shows "(2::rat) powi e = of_int (2 ^ nat (e - k)) * 2 powi k"
proof -
  have "(2::rat) powi e = 2 powi ((e - k) + k)" by simp
  also have "\<dots> = 2 powi (e - k) * 2 powi k" by (rule power_int_add) simp
  also have "(2::rat) powi (e - k) = of_int (2 ^ nat (e - k))" using assms by (simp add: pow2_nat)
  finally show ?thesis .
qed

lemma fl_pos_mono:
  assumes "0 \<le> x" and "x \<le> y"
  shows "fl_pos x \<le> fl_pos y"
proof (cases "x = 0")
  case True
  then show ?thesis using assms fl_pos_nonneg [of y] by (simp add: fl_pos_zero)
next
  case False
  then have x0: "0 < x" and y0: "0 < y" using assms by simp_all
  define kx where "kx = max (expo x - 52) (- 1074)"
  define ky where "ky = max (expo y - 52) (- 1074)"
  have qx: "quantum x = 2 powi kx" and qy: "quantum y = 2 powi ky"
    by (simp_all add: quantum_def kx_def ky_def)
  have exy: "expo x \<le> expo y" using x0 assms(2) by (rule expo_mono)
  then have kxy: "kx \<le> ky" by (simp add: kx_def ky_def)
  show ?thesis
  proof (cases "kx = ky")
    case True
    then have q: "quantum y = quantum x" by (simp add: qx qy)
    have "x / quantum x \<le> y / quantum x"
      using assms(2) quantum_pos [of x] by (simp add: divide_right_mono)
    then have "rne (x / quantum x) \<le> rne (y / quantum x)" by (rule rne_mono)
    then have "(of_int (rne (x / quantum x)) :: rat) \<le> of_int (rne (y / quantum x))" by simp
    then show ?thesis
      using quantum_pos [of x] by (simp add: fl_pos_def q mult_right_mono)
  next
    case False
    with kxy have lt: "kx < ky" by simp
    have ky_eq: "ky = expo y - 52" and e_gt: "kx < expo y - 52"
      using lt unfolding kx_def ky_def by linarith+
    have ex1: "expo x + 1 \<le> expo y" using e_gt unfolding kx_def by linarith
    define B :: rat where "B = 2 powi expo y"
    have "x = \<bar>x\<bar>" using x0 by simp
    also have "\<dots> < 2 powi (expo x + 1)" using x0 by (intro expo_bounds) simp
    also have "\<dots> \<le> B" unfolding B_def using ex1 by (intro power_int_increasing) simp_all
    finally have xB: "x \<le> B" by simp
    have "B \<le> \<bar>y\<bar>" unfolding B_def using y0 by (intro expo_bounds) simp
    then have By: "B \<le> y" using y0 by simp
    have Bx: "B = of_int (2 ^ nat (expo y - kx)) * quantum x"
      unfolding B_def qx using e_gt by (intro pow2_split) simp
    have Bq: "B = of_int (2 ^ nat (expo y - ky)) * quantum y"
      unfolding B_def qy using ky_eq by (intro pow2_split) simp
    have "fl_pos x \<le> B"
      unfolding fl_pos_def using grid_le [OF quantum_pos [of x], of x "2 ^ nat (expo y - kx)"] xB Bx
      by simp
    moreover have "B \<le> fl_pos y"
      unfolding fl_pos_def using grid_ge [OF quantum_pos [of y], of "2 ^ nat (expo y - ky)" y] By Bq
      by simp
    ultimately show ?thesis by simp
  qed
qed

lemma fl_mono:
  assumes "x \<le> y"
  shows "fl x \<le> fl y"
proof -
  consider "0 \<le> x" | "x < 0" "y < 0" | "x < 0" "0 \<le> y" by linarith
  then show ?thesis
  proof cases
    case 1
    then show ?thesis using assms fl_pos_mono [of x y] by (simp add: fl_def)
  next
    case 2
    then show ?thesis using assms fl_pos_mono [of "- y" "- x"] by (simp add: fl_def)
  next
    case 3
    then show ?thesis using fl_pos_nonneg [of y] fl_pos_nonneg [of "- x"] by (simp add: fl_def)
  qed
qed

lemma fl_upper: "x \<le> b \<Longrightarrow> fl b = b \<Longrightarrow> fl x \<le> b"
  using fl_mono [of x b] by simp

lemma fl_lower: "a \<le> x \<Longrightarrow> fl a = a \<Longrightarrow> a \<le> fl x"
  using fl_mono [of a x] by simp

lemma pow2_lt_imp: assumes "(2::rat) powi a < 2 powi b" shows "a < b"
proof (rule ccontr)
  assume "\<not> a < b"
  then have "b \<le> a" by simp
  then have "(2::rat) powi b \<le> 2 powi a" by (intro power_int_increasing) simp_all
  with assms show False by simp
qed

lemma expo_unique:
  assumes "2 powi e \<le> \<bar>x\<bar>" and "\<bar>x\<bar> < 2 powi (e + 1)"
  shows "expo x = e"
proof -
  have "(0::rat) < 2 powi e" by simp
  with assms(1) have "0 < \<bar>x\<bar>" by linarith
  then have x0: "x \<noteq> 0" by simp
  have "(2::rat) powi e < 2 powi (expo x + 1)"
    using assms(1) expo_bounds(2) [OF x0] by simp
  then have "e < expo x + 1" by (rule pow2_lt_imp)
  moreover have "(2::rat) powi expo x < 2 powi (e + 1)"
    using assms(2) expo_bounds(1) [OF x0] by simp
  then have "expo x < e + 1" by (rule pow2_lt_imp)
  ultimately show ?thesis by simp
qed

lemma fl_zero: "fl 0 = 0"
  by (simp add: fl_def fl_pos_zero)

lemma fl_minus: "fl (- x) = - fl x"
  by (cases "x = 0") (auto simp add: fl_def fl_pos_zero)

lemma fl_pow2:
  assumes "- 1022 \<le> k"
  shows "fl (2 powi k) = 2 powi k"
proof -
  let ?x = "(2::rat) powi k"
  have pos: "0 < ?x" by simp
  have "?x < 2 powi (k + 1)" by (intro power_int_strict_increasing) simp_all
  then have e: "expo ?x = k" using pos by (intro expo_unique) simp_all
  have q: "quantum ?x = 2 powi (k - 52)" using assms by (simp add: quantum_def e)
  have "?x = of_int (2 ^ nat (k - (k - 52))) * 2 powi (k - 52)" by (rule pow2_split) simp
  then have x: "?x = of_int (2 ^ 52) * 2 powi (k - 52)" by simp
  have "?x / 2 powi (k - 52) = of_int (2 ^ 52)" by (subst x) simp
  then have "rne (?x / quantum ?x) = 2 ^ 52" by (simp only: q rne_of_int)
  then have "fl_pos ?x = of_int (2 ^ 52) * 2 powi (k - 52)" by (simp only: fl_pos_def q)
  then have "fl_pos ?x = ?x" using x by simp
  moreover have "\<not> ?x < 0" using pos by linarith
  ultimately show ?thesis by (simp add: fl_def)
qed

lemma fl_abs_le:
  assumes "\<bar>x\<bar> \<le> 2 powi k" and "- 1022 \<le> k"
  shows "\<bar>fl x\<bar> \<le> 2 powi k"
proof -
  have "fl x \<le> 2 powi k" using assms fl_upper [of x "2 powi k"] by (simp add: fl_pow2)
  moreover have "- (2 powi k) \<le> fl x"
    using assms fl_lower [of "- (2 powi k)" x] by (simp add: fl_minus fl_pow2)
  ultimately show ?thesis by simp
qed

lemma round_number_Fin:
  assumes "- (overflow_threshold) < fl x" and "fl x < overflow_threshold"
  shows "round_number x = Fin (fl x)"
  using assms by (simp add: round_number_def Let_def not_le)

lemma round_number_range:
  assumes "a \<le> x" and "x \<le> b" and "fl a = a" and "fl b = b"
    and "- (overflow_threshold) < a" and "b < overflow_threshold"
  shows "round_number x = Fin (fl x) \<and> a \<le> fl x \<and> fl x \<le> b"
proof -
  have lo: "a \<le> fl x" using assms(1,3) by (rule fl_lower)
  have hi: "fl x \<le> b" using assms(2,4) by (rule fl_upper)
  have "round_number x = Fin (fl x)"
    using lo hi assms(5,6) by (intro round_number_Fin) linarith+
  with lo hi show ?thesis by simp
qed

lemma round_number_abs:
  assumes "\<bar>x\<bar> \<le> 2 powi k" and "- 1022 \<le> k" and "k \<le> 1023"
  shows "round_number x = Fin (fl x) \<and> \<bar>fl x\<bar> \<le> 2 powi k"
proof -
  have b: "\<bar>fl x\<bar> \<le> 2 powi k" using assms(1,2) by (rule fl_abs_le)
  have "(2::rat) powi k \<le> 2 powi 1023" using assms(3) by (intro power_int_increasing) simp_all
  also have "\<dots> < 2 powi 1024" by (intro power_int_strict_increasing) simp_all
  also have "\<dots> = overflow_threshold" by (simp add: pow2_nat overflow_threshold_def)
  finally have "(2::rat) powi k < overflow_threshold" .
  with b have "- (overflow_threshold) < fl x" "fl x < overflow_threshold" by linarith+
  then have "round_number x = Fin (fl x)" by (rule round_number_Fin)
  with b show ?thesis by simp
qed

lemma c1: "fl 1 = 1" using fl_pow2 [of 0] by simp
lemma c2: "fl 2 = 2" using fl_pow2 [of 1] by simp
lemma ch: "fl (1 / 2) = 1 / 2" using fl_pow2 [of "- 1"] by (simp add: power_int_def)
lemma c100: "fl 100 = 100" by code_simp
lemma c4500: "fl 4500 = 4500" by code_simp
lemma c5000: "fl 5000 = 5000" by code_simp
lemma c500: "fl 500 = 500" by code_simp
lemma c300: "fl 300 = 300" by code_simp

section \<open>Constants of the interpolation\<close>

lemma frameTime_value: "frameTime = Fin (4691249611844267 / 281474976710656)"
  by code_simp

lemma span_value: "fsub maxDuration minDuration = Fin 4500"
  by code_simp

section \<open>Ranges of the interpolation arithmetic\<close>

lemma threshold_large: "5000 < overflow_threshold"
  by (simp add: overflow_threshold_def)

lemma fl_100: "fl 100 = 100" by code_simp
lemma fl_500: "fl 500 = 500" by code_simp
lemma fl_4500: "fl 4500 = 4500" by code_simp
lemma fl_5000: "fl 5000 = 5000" by code_simp
lemma fl_300: "fl 300 = 300" by code_simp
lemma fl_1: "fl 1 = 1" using fl_pow2 [of 0] by simp
lemma fl_2: "fl 2 = 2" using fl_pow2 [of 1] by simp
lemma fl_half: "fl (1 / 2) = 1 / 2" using fl_pow2 [of "- 1"] by (simp add: power_int_def)

lemma quotient_500: "fl (500 / (4691249611844267 / 281474976710656)) = 8444249301319679 / 281474976710656"
  by code_simp

lemma quotient_5000: "fl (5000 / (4691249611844267 / 281474976710656)) = 300"
  by code_simp

text \<open>The duration of a smoothness between 0 and 100 is a finite number between 500 and 5000.\<close>

lemma durationMs_Fin:
  assumes "0 \<le> s" and "s \<le> 100"
  shows "durationMs (Fin s) = Fin (dur s) \<and> 500 \<le> dur s \<and> dur s \<le> 5000"
proof -
  define q where "q = fl (s / 100)"
  define m where "m = fl (q * 4500)"
  have q: "round_number (s / 100) = Fin q \<and> 0 \<le> q \<and> q \<le> 1"
    unfolding q_def using assms threshold_large
    by (intro round_number_range) (simp_all add: fl_zero fl_1)
  then have m: "round_number (q * 4500) = Fin m \<and> 0 \<le> m \<and> m \<le> 4500"
    unfolding m_def using threshold_large
    by (intro round_number_range) (simp_all add: fl_zero fl_4500)
  then have d: "round_number (5000 - m) = Fin (fl (5000 - m)) \<and> 500 \<le> fl (5000 - m) \<and> fl (5000 - m) \<le> 5000"
    using threshold_large
    by (intro round_number_range) (simp_all add: fl_500 fl_5000)
  have "durationMs (Fin s) = fsub (Fin 5000) (fmul (fdiv (Fin s) (Fin 100)) (Fin 4500))"
    by (simp add: durationMs_def span_value) (simp add: maxDuration_def)
  also have "\<dots> = Fin (fl (5000 - m))"
    using q m d by (simp add: fsub_def)
  finally show ?thesis using d by (simp add: dur_def m_def q_def)
qed

lemma dur_antimono:
  assumes "a \<le> b"
  shows "dur b \<le> dur a"
proof -
  have "fl (a / 100) \<le> fl (b / 100)" using assms by (intro fl_mono) simp
  then have "fl (fl (a / 100) * 4500) \<le> fl (fl (b / 100) * 4500)" by (intro fl_mono) simp
  then show ?thesis unfolding dur_def by (intro fl_mono) simp
qed

lemma totalFrames_Fin:
  assumes "0 \<le> s" and "s \<le> 100"
  shows "\<exists>N::nat. totalFrames (Fin s) = Fin (of_nat N) \<and> 29 \<le> N \<and> N \<le> 300"
proof -
  let ?ft = "4691249611844267 / 281474976710656 :: rat"
  define r where "r = fl (dur s / ?ft)"
  from durationMs_Fin [OF assms]
  have d: "durationMs (Fin s) = Fin (dur s)" and lo: "500 \<le> dur s" and hi: "dur s \<le> 5000"
    by simp_all
  have "500 / ?ft \<le> dur s / ?ft" using lo by (intro divide_right_mono) simp_all
  then have "fl (500 / ?ft) \<le> r" unfolding r_def by (rule fl_mono)
  then have r_lo: "8444249301319679 / 281474976710656 \<le> r" by (simp only: quotient_500)
  have "dur s / ?ft \<le> 5000 / ?ft" using hi by (intro divide_right_mono) simp_all
  then have "r \<le> fl (5000 / ?ft)" unfolding r_def by (rule fl_mono)
  then have r_hi: "r \<le> 300" by (simp only: quotient_5000)
  have "round_number (dur s / ?ft) = Fin r"
    unfolding r_def using r_lo r_hi threshold_large
    by (intro round_number_Fin) (simp_all add: r_def)
  then have tf: "totalFrames (Fin s) = Fin (of_int \<lfloor>r\<rfloor>)"
    by (simp add: totalFrames_def d frameTime_value)
  have f_lo: "29 \<le> \<lfloor>r\<rfloor>" using r_lo by (simp add: le_floor_iff)
  have f_hi: "\<lfloor>r\<rfloor> \<le> 300" using r_hi by (simp add: floor_le_iff)
  have "totalFrames (Fin s) = Fin (of_nat (nat \<lfloor>r\<rfloor>))"
    using tf f_lo by simp
  moreover have "29 \<le> nat \<lfloor>r\<rfloor>" "nat \<lfloor>r\<rfloor> \<le> 300" using f_lo f_hi by linarith+
  ultimately show ?thesis by blast
qed

lemma threshold_pow: "k \<le> 1023 \<Longrightarrow> (2::rat) powi k < overflow_threshold"
proof -
  assume "k \<le> 1023"
  then have "(2::rat) powi k \<le> 2 powi 1023" by (intro power_int_increasing) simp_all
  also have "\<dots> < 2 powi 1024" by (intro power_int_strict_increasing) simp_all
  also have "\<dots> = overflow_threshold" by (simp add: pow2_nat overflow_threshold_def)
  finally show ?thesis .
qed

lemma t_range:
  assumes "frame \<le> N" and "0 < N"
  shows "\<exists>t. fdiv (Fin (of_nat frame)) (Fin (of_nat N)) = Fin t \<and> 0 \<le> t \<and> t \<le> 1"
proof -
  let ?x = "of_nat frame / of_nat N :: rat"
  have "0 \<le> ?x" by simp
  moreover have "?x \<le> 1" using assms by (simp add: divide_le_eq_1)
  ultimately have "round_number ?x = Fin (fl ?x) \<and> 0 \<le> fl ?x \<and> fl ?x \<le> 1"
    using threshold_large by (intro round_number_range) (simp_all add: fl_zero fl_1)
  then show ?thesis using assms(2) by simp
qed

lemma unit_range:
  assumes "0 \<le> x" and "x \<le> 1"
  shows "round_number x = Fin (fl x) \<and> 0 \<le> fl x \<and> fl x \<le> 1"
  using assms threshold_large by (intro round_number_range) (simp_all add: fl_zero fl_1)

lemma half_range:
  assumes "0 \<le> x" and "x \<le> 1 / 2"
  shows "round_number x = Fin (fl x) \<and> 0 \<le> fl x \<and> fl x \<le> 1 / 2"
  using assms threshold_large by (intro round_number_range) (simp_all add: fl_zero fl_half)

lemma easedT_range:
  assumes "0 \<le> t" and "t \<le> 1"
  shows "\<exists>e. easedT (Fin t) = Fin e \<and> 0 \<le> e \<and> e \<le> 1"
proof (cases "t < 1 / 2")
  case True
  define u where "u = fl (2 * t)"
  have u: "round_number (2 * t) = Fin u \<and> 0 \<le> u \<and> u \<le> 1"
    unfolding u_def using assms True by (intro unit_range) simp_all
  have "u * t \<le> 1 * (1 / 2)" using u True assms by (intro mult_mono) simp_all
  then have v: "round_number (u * t) = Fin (fl (u * t)) \<and> 0 \<le> fl (u * t) \<and> fl (u * t) \<le> 1 / 2"
    using u assms by (intro half_range) simp_all
  have "easedT (Fin t) = Fin (fl (u * t))"
    using True u v by (simp add: easedT_def)
  then show ?thesis using v by auto
next
  case False
  then have t: "1 / 2 \<le> t" by simp
  define a where "a = fl (- 2 * t)"
  have a: "round_number (- 2 * t) = Fin a \<and> - 2 \<le> a \<and> a \<le> - 1"
    unfolding a_def using assms t threshold_large
    by (intro round_number_range) (simp_all add: fl_minus fl_1 fl_2)
  define b where "b = fl (a + 2)"
  have b: "round_number (a + 2) = Fin b \<and> 0 \<le> b \<and> b \<le> 1"
    unfolding b_def using a by (intro unit_range) simp_all
  define c where "c = fl (b * b)"
  have "b * b \<le> 1 * 1" using b by (intro mult_mono) simp_all
  then have c: "round_number (b * b) = Fin c \<and> 0 \<le> c \<and> c \<le> 1"
    unfolding c_def using b by (intro unit_range) simp_all
  define d where "d = fl (c / 2)"
  have d: "round_number (c / 2) = Fin d \<and> 0 \<le> d \<and> d \<le> 1 / 2"
    unfolding d_def using c by (intro half_range) simp_all
  have e: "round_number (1 - d) = Fin (fl (1 - d)) \<and> 0 \<le> fl (1 - d) \<and> fl (1 - d) \<le> 1"
    using d by (intro unit_range) simp_all
  have "easedT (Fin t) = Fin (fl (1 - d))"
    using False a b c d e by (simp add: easedT_def pow2_def fsub_def)
  then show ?thesis using e by auto
qed


section \<open>The error of a rounding\<close>

lemma rne_err: "\<bar>of_int (rne z) - z\<bar> \<le> 1 / 2"
proof -
  have "of_int \<lfloor>z\<rfloor> \<le> z" "z < of_int \<lfloor>z\<rfloor> + 1" by linarith+
  then show ?thesis by (auto simp add: rne_def Let_def)
qed

lemma fl_pos_err: "\<bar>fl_pos x - x\<bar> \<le> quantum x / 2"
proof -
  let ?q = "quantum x"
  have q: "0 < ?q" by (rule quantum_pos)
  have "fl_pos x - x = (of_int (rne (x / ?q)) - x / ?q) * ?q"
    using q by (simp add: fl_pos_def field_simps)
  then have "\<bar>fl_pos x - x\<bar> = \<bar>of_int (rne (x / ?q)) - x / ?q\<bar> * ?q"
    using q by (simp add: abs_mult)
  also have "\<dots> \<le> (1 / 2) * ?q"
    using rne_err [of "x / ?q"] q by (intro mult_right_mono) simp_all
  finally show ?thesis by simp
qed

lemma quantum_minus: "quantum (- x) = quantum x"
  by (simp add: quantum_def expo_def)

lemma fl_err_quantum: "\<bar>fl x - x\<bar> \<le> quantum x / 2"
proof (cases "x < 0")
  case True
  have "\<bar>fl x - x\<bar> = \<bar>fl_pos (- x) - (- x)\<bar>" using True by (simp add: fl_def)
  also have "\<dots> \<le> quantum (- x) / 2" by (rule fl_pos_err)
  finally show ?thesis by (simp add: quantum_minus)
next
  case False
  then show ?thesis using fl_pos_err [of x] by (simp add: fl_def)
qed

lemma quantum_le:
  assumes "x \<noteq> 0" and "\<bar>x\<bar> < 2 powi k" and "- 1021 \<le> k"
  shows "quantum x \<le> 2 powi (k - 53)"
proof -
  have "(2::rat) powi expo x < 2 powi k"
    using expo_bounds(1) [OF assms(1)] assms(2) by simp
  then have "expo x < k" by (rule pow2_lt_imp)
  then have "max (expo x - 52) (- 1074) \<le> k - 53" using assms(3) by simp
  then show ?thesis unfolding quantum_def by (intro power_int_increasing) simp_all
qed

text \<open>The error of one rounding, for a magnitude of at most \<open>2\<^sup>k\<close>.\<close>

lemma fl_err:
  assumes "\<bar>x\<bar> \<le> 2 powi k" and "- 1021 \<le> k"
  shows "\<bar>fl x - x\<bar> \<le> 2 powi (k - 54)"
proof -
  have half: "(2::rat) powi (k - 53) / 2 = 2 powi (k - 54)"
  proof -
    have "(2::rat) powi (k - 53) = 2 powi ((k - 54) + 1)" by simp
    also have "\<dots> = 2 powi (k - 54) * 2 powi 1" by (rule power_int_add) simp
    finally show ?thesis by simp
  qed
  consider "x = 0" | "\<bar>x\<bar> = 2 powi k" | "x \<noteq> 0" "\<bar>x\<bar> < 2 powi k"
    using assms(1) by fastforce
  then show ?thesis
  proof cases
    case 1
    then show ?thesis by (simp add: fl_zero)
  next
    case 2
    then have "x = 2 powi k \<or> x = - (2 powi k)" by (auto simp add: abs_if split: if_splits)
    then have "fl x = x" using assms(2) by (auto simp add: fl_pow2 fl_minus)
    then show ?thesis by simp
  next
    case 3
    have "\<bar>fl x - x\<bar> \<le> quantum x / 2" by (rule fl_err_quantum)
    also have "\<dots> \<le> 2 powi (k - 53) / 2"
      using quantum_le [OF 3 assms(2)] by simp
    finally show ?thesis by (simp only: half)
  qed
qed

lemma dur_close:
  assumes "0 \<le> s" and "s \<le> 100"
  shows "\<bar>dur s - (5000 - (s / 100) * 4500)\<bar> \<le> 1 / 2 ^ 39"
proof -
  define q where "q = fl (s / 100)"
  define m where "m = fl (q * 4500)"
  have q_rng: "0 \<le> q" "q \<le> 1"
    unfolding q_def using assms by (auto intro!: fl_lower fl_upper simp add: fl_zero fl_1)
  have m_rng: "0 \<le> m" "m \<le> 4500"
    unfolding m_def using q_rng by (auto intro!: fl_lower fl_upper simp add: fl_zero fl_4500)
  have "\<bar>s / 100\<bar> \<le> 2 powi 0" using assms by simp
  then have e1: "\<bar>q - s / 100\<bar> \<le> 2 powi (0 - 54)" unfolding q_def by (rule fl_err) simp
  have "\<bar>q * 4500\<bar> \<le> 2 powi 13" using q_rng by (simp add: abs_mult)
  then have e2: "\<bar>m - q * 4500\<bar> \<le> 2 powi (13 - 54)" unfolding m_def by (rule fl_err) simp
  have "\<bar>5000 - m\<bar> \<le> 2 powi 13" using m_rng by simp
  then have e3: "\<bar>fl (5000 - m) - (5000 - m)\<bar> \<le> 2 powi (13 - 54)" by (rule fl_err) simp
  have p54: "(2::rat) powi (0 - 54) = 1 / 2 ^ 54" and p41: "(2::rat) powi (13 - 54) = 1 / 2 ^ 41"
    by (simp_all add: power_int_def field_simps)
  define A where "A = fl (5000 - m) - (5000 - m)"
  define B where "B = m - q * 4500"
  define C where "C = q - s / 100"
  have "dur s - (5000 - (s / 100) * 4500) = A - B - 4500 * C"
    by (simp add: dur_def m_def q_def A_def B_def C_def algebra_simps)
  also have "\<bar>A - B - 4500 * C\<bar> \<le> \<bar>A\<bar> + \<bar>B\<bar> + 4500 * \<bar>C\<bar>"
    by linarith
  finally have "\<bar>dur s - (5000 - (s / 100) * 4500)\<bar>
      \<le> \<bar>fl (5000 - m) - (5000 - m)\<bar> + \<bar>m - q * 4500\<bar> + 4500 * \<bar>q - s / 100\<bar>"
    by (simp add: A_def B_def C_def)
  also have "\<dots> \<le> 1 / 2 ^ 41 + 1 / 2 ^ 41 + 4500 * (1 / 2 ^ 54)"
    using e1 e2 e3 unfolding p54 p41 by (intro add_mono mult_left_mono) simp_all
  also have "\<dots> \<le> 1 / 2 ^ 39" by simp
  finally show ?thesis .
qed

subsection \<open>Doubles are fixed by the rounding\<close>

lemma bitlen_le53: assumes "0 < n" and "n < (2::int) ^ 53" shows "bitlen n \<le> 53"
proof (rule ccontr)
  assume "\<not> bitlen n \<le> 53"
  then have "54 \<le> bitlen n" by simp
  then have "(53::nat) \<le> nat (bitlen n - 1)" by simp
  then have "(2::int) ^ 53 \<le> 2 ^ nat (bitlen n - 1)" by (intro power_increasing) simp_all
  also have "\<dots> \<le> n" using bitlen_bounds [OF assms(1)] by simp
  finally show False using assms(2) by simp
qed

lemma fl_grid:
  assumes "0 < n" and "n < (2::int) ^ 53" and "- 1074 \<le> k"
  shows "fl (of_int n * 2 powi k) = of_int n * 2 powi k"
proof -
  let ?x = "(of_int n :: rat) * 2 powi k"
  define L where "L = bitlen n"
  have L1: "1 \<le> L"
  proof (rule ccontr)
    assume "\<not> 1 \<le> L"
    then have "nat L = 0" by simp
    then have "n < 1" using bitlen_bounds [OF assms(1)] by (simp add: L_def)
    then show False using assms(1) by simp
  qed
  have L53: "L \<le> 53" unfolding L_def using assms(1,2) by (rule bitlen_le53)
  have bnd: "(2::int) ^ nat (L - 1) \<le> n" "n < 2 ^ nat L"
    using bitlen_bounds [OF assms(1)] by (simp_all add: L_def)
  have pos: "0 < ?x" using assms(1) by simp
  have lo: "2 powi (k + L - 1) \<le> ?x"
  proof -
    have "(2::rat) powi (k + L - 1) = 2 powi ((L - 1) + k)" by (simp add: algebra_simps)
    also have "\<dots> = 2 powi (L - 1) * 2 powi k" by (rule power_int_add) simp
    also have "(2::rat) powi (L - 1) = of_int (2 ^ nat (L - 1))" using L1 by (simp add: pow2_nat)
    also have "of_int (2 ^ nat (L - 1)) * (2::rat) powi k \<le> of_int n * 2 powi k"
      using bnd(1) by (intro mult_right_mono) simp_all
    finally show ?thesis .
  qed
  have hi: "?x < 2 powi (k + L - 1 + 1)"
  proof -
    have "(of_int n :: rat) < of_int (2 ^ nat L)" using bnd(2) by (simp only: of_int_less_iff)
    then have "?x < of_int (2 ^ nat L) * 2 powi k" by (intro mult_strict_right_mono) simp_all
    also have "(of_int (2 ^ nat L) :: rat) = 2 powi L" using L1 by (simp add: pow2_nat)
    also have "(2::rat) powi L * 2 powi k = 2 powi (L + k)" by (rule power_int_add [symmetric]) simp
    finally show ?thesis by (simp add: algebra_simps)
  qed
  have e: "expo ?x = k + L - 1" using lo hi pos by (intro expo_unique) simp_all
  define kq where "kq = max (k + L - 1 - 52) (- 1074)"
  have kq: "kq \<le> k" unfolding kq_def using L53 assms(3) by simp
  have q: "quantum ?x = 2 powi kq" by (simp add: quantum_def e kq_def)
  have split: "(2::rat) powi k = of_int (2 ^ nat (k - kq)) * 2 powi kq" using kq by (rule pow2_split)
  have "?x / 2 powi kq = of_int (n * 2 ^ nat (k - kq))"
    by (subst split) simp
  then have "rne (?x / quantum ?x) = n * 2 ^ nat (k - kq)"
    unfolding q by (simp only: rne_of_int)
  then have "fl_pos ?x = of_int (n * 2 ^ nat (k - kq)) * 2 powi kq"
    unfolding fl_pos_def q by simp
  also have "\<dots> = of_int n * (of_int (2 ^ nat (k - kq)) * 2 powi kq)" by simp
  also have "\<dots> = ?x" by (simp only: split [symmetric])
  finally show ?thesis using pos by (simp add: fl_def)
qed

lemma fl_idem_pos:
  assumes "0 < x"
  shows "fl (fl x) = fl x"
proof -
  define e where "e = expo x"
  define kq where "kq = max (e - 52) (- 1074)"
  define N where "N = rne (x / quantum x)"
  have q: "quantum x = 2 powi kq" by (simp add: quantum_def e_def kq_def)
  have flx: "fl x = of_int N * 2 powi kq"
    using assms by (simp add: fl_def fl_pos_def N_def q)
  have kq1: "- 1074 \<le> kq" and kq2: "e + 1 - kq \<le> 53" unfolding kq_def by simp_all
  have "x < 2 powi (e + 1)" using expo_bounds(2) [of x] assms by (simp add: e_def)
  also have "(2::rat) powi (e + 1) = 2 powi ((e + 1 - kq) + kq)" by simp
  also have "\<dots> = 2 powi (e + 1 - kq) * 2 powi kq" by (rule power_int_add) simp
  also have "\<dots> \<le> 2 powi 53 * 2 powi kq"
    using kq2 by (intro mult_right_mono power_int_increasing) simp_all
  finally have "x / 2 powi kq \<le> 2 powi 53" by (simp add: field_simps)
  then have "x / quantum x \<le> of_int (2 ^ 53)" by (simp add: q pow2_nat)
  then have "N \<le> 2 ^ 53" unfolding N_def using rne_mono [of "x / quantum x" "of_int (2 ^ 53)"]
    by (simp only: rne_of_int)
  moreover have "0 \<le> N"
  proof -
    have "0 \<le> x / quantum x" using assms quantum_pos [of x] by simp
    then have "rne (of_int 0) \<le> rne (x / quantum x)" by (intro rne_mono) simp
    then show ?thesis unfolding N_def by (simp only: rne_of_int)
  qed
  ultimately consider "N = 0" | "0 < N" "N < 2 ^ 53" | "N = 2 ^ 53" by linarith
  then show ?thesis
  proof cases
    case 1
    then show ?thesis by (simp add: flx fl_zero)
  next
    case 2
    then show ?thesis unfolding flx using kq1 by (rule fl_grid)
  next
    case 3
    have "fl x = 2 powi 53 * 2 powi kq" unfolding flx 3 by (simp add: pow2_nat)
    also have "\<dots> = 2 powi (53 + kq)" by (rule power_int_add [symmetric]) simp
    finally have p: "fl x = 2 powi (53 + kq)" .
    show ?thesis unfolding p using kq1 by (intro fl_pow2) simp
  qed
qed

lemma fl_idem: "fl (fl x) = fl x"
proof -
  consider "x = 0" | "0 < x" | "x < 0" by linarith
  then show ?thesis
  proof cases
    case 1 then show ?thesis by (simp add: fl_zero)
  next
    case 2 then show ?thesis by (rule fl_idem_pos)
  next
    case 3
    then have "fl (fl (- x)) = fl (- x)" by (intro fl_idem_pos) simp
    then show ?thesis by (simp add: fl_minus)
  qed
qed

subsection \<open>No overflow below \<open>2\<^sup>1\<^sup>0\<^sup>2\<^sup>3\<close>\<close>

lemma double_below:
  assumes "fl x = x" and "\<bar>x\<bar> < 2 powi 1023"
  shows "\<bar>x\<bar> \<le> 2 powi 1023 - 2 powi 970"
proof -
  have pos: "y \<le> 2 powi 1023 - 2 powi 970" if y: "fl y = y" "0 < y" "y < 2 powi 1023" for y :: rat
  proof -
    define e where "e = expo y"
    have lo: "2 powi e \<le> y" using expo_bounds(1) [of y] y(2) by (simp add: e_def)
    then have "(2::rat) powi e < 2 powi 1023" using y(3) by linarith
    then have e: "e < 1023" by (rule pow2_lt_imp)
    show ?thesis
    proof (cases "e = 1022")
      case True
      define N where "N = rne (y / quantum y)"
      have q: "quantum y = 2 powi 970" by (simp add: quantum_def e_def [symmetric] True)
      have yN: "y = of_int N * 2 powi 970"
        using y(1,2) by (simp add: fl_def fl_pos_def N_def q)
      have "(2::rat) powi 1023 = of_int (2 ^ nat (1023 - 970)) * 2 powi 970"
        by (rule pow2_split) simp
      then have split: "(2::rat) powi 1023 = of_int (2 ^ 53) * 2 powi 970" by simp
      have "of_int N * (2::rat) powi 970 < of_int (2 ^ 53) * 2 powi 970"
        using y(3) unfolding split yN [symmetric] .
      then have "(of_int N :: rat) < of_int (2 ^ 53)"
        by (simp only: mult_less_cancel_right_pos zero_less_power_int zero_less_numeral)
      then have "N < 2 ^ 53" by (simp only: of_int_less_iff)
      then have "N \<le> 2 ^ 53 - 1" by simp
      then have "(of_int N :: rat) \<le> of_int (2 ^ 53 - 1)" by (simp only: of_int_le_iff)
      then have "of_int N * (2::rat) powi 970 \<le> of_int (2 ^ 53 - 1) * 2 powi 970"
        by (intro mult_right_mono) simp_all
      also have "\<dots> = of_int (2 ^ 53) * 2 powi 970 - 2 powi 970"
        by (simp add: algebra_simps)
      finally show ?thesis unfolding split yN [symmetric] .
    next
      case False
      then have "e + 1 \<le> 1022" using e by simp
      then have "(2::rat) powi (e + 1) \<le> 2 powi 1022" by (intro power_int_increasing) simp_all
      moreover have "y < 2 powi (e + 1)" using expo_bounds(2) [of y] y(2) by (simp add: e_def)
      moreover have "(2::rat) powi 1022 \<le> 2 powi 1023 - 2 powi 970" by (simp add: pow2_nat)
      ultimately show ?thesis by linarith
    qed
  qed
  consider "x = 0" | "0 < x" | "x < 0" by linarith
  then show ?thesis
  proof cases
    case 1
    then show ?thesis by (simp add: pow2_nat)
  next
    case 2
    then show ?thesis using pos [of x] assms by simp
  next
    case 3
    then have "- x \<le> 2 powi 1023 - 2 powi 970"
      using assms by (intro pos) (simp_all add: fl_minus)
    then show ?thesis using 3 by simp
  qed
qed

lemma double_is_moderate:
  assumes "is_double (Fin a)" and "\<bar>a\<bar> < 2 ^ 1023"
  shows "moderate (Fin a)"
proof -
  have "round_number a = Fin a" using assms(1) by (simp add: is_double_def)
  then have "fl a = a" by (simp add: round_number_def Let_def split: if_splits)
  moreover have "\<bar>a\<bar> < 2 powi 1023" using assms(2) by (simp add: pow2_nat)
  ultimately have "\<bar>a\<bar> \<le> 2 powi 1023 - 2 powi 970" by (rule double_below)
  then show ?thesis by (simp add: moderate_def pow2_nat)
qed

lemma fl_largest: "fl (2 powi 1024 - 2 powi 971) = 2 powi 1024 - 2 powi 971"
proof -
  have "(2::rat) powi 1024 = of_int (2 ^ nat (1024 - 971)) * 2 powi 971"
    by (rule pow2_split) simp
  then have split: "(2::rat) powi 1024 = of_int (2 ^ 53) * 2 powi 971" by simp
  have eq: "(2::rat) powi 1024 - 2 powi 971 = of_int (2 ^ 53 - 1) * 2 powi 971"
    unfolding split by (simp add: algebra_simps)
  show ?thesis unfolding eq by (rule fl_grid) simp_all
qed

lemma interpolation_finite:
  assumes a: "\<bar>a\<bar> \<le> 2 powi 1023 - 2 powi 970" and b: "\<bar>b\<bar> \<le> 2 powi 1023 - 2 powi 970"
    and e: "0 \<le> e" "e \<le> 1"
  shows "\<exists>d m r. round_number (b - a) = Fin d \<and> round_number (d * e) = Fin m
           \<and> round_number (a + m) = Fin r"
proof -
  let ?M = "(2::rat) powi 1024 - 2 powi 971"
  have dbl: "(2::rat) powi 1024 = 2 * 2 powi 1023" "(2::rat) powi 971 = 2 * 2 powi 970"
    "(2::rat) powi 1024 = 2 powi 971 * 2 ^ 53"
    by (simp_all add: pow2_nat)
  have pos970: "(0::rat) < 2 powi 970" and pos971: "(0::rat) < 2 powi 971" by simp_all
  have thr: "overflow_threshold = 2 powi 1024" by (simp add: overflow_threshold_def pow2_nat)
  have Mlt: "?M < overflow_threshold" unfolding thr using pos971 by linarith
  have flM: "fl ?M = ?M" by (rule fl_largest)
  have flmM: "fl (- ?M) = - ?M" using flM fl_minus [of ?M] by simp
  define d where "d = fl (b - a)"
  have x: "\<bar>b - a\<bar> \<le> ?M" using a b dbl(1,2) by linarith
  then have dM: "- ?M \<le> d" "d \<le> ?M"
    unfolding d_def using fl_lower [of "- ?M" "b - a"] fl_upper [of "b - a" ?M] flM flmM
    by linarith+
  have rd: "round_number (b - a) = Fin d"
    unfolding d_def using dM Mlt by (intro round_number_Fin) (simp_all add: d_def)
  have "\<bar>b - a\<bar> \<le> 2 powi 1024" using x pos971 by linarith
  then have "\<bar>fl (b - a) - (b - a)\<bar> \<le> 2 powi (1024 - 54)" by (rule fl_err) simp
  then have err: "\<bar>d - (b - a)\<bar> \<le> 2 powi 970" by (simp add: d_def)
  have fld: "fl d = d" unfolding d_def by (rule fl_idem)
  define m where "m = fl (d * e)"
  have between: "(0 \<le> m \<and> m \<le> d) \<or> (d \<le> m \<and> m \<le> 0)"
  proof (cases "0 \<le> d")
    case True
    have "0 \<le> d * e" using True e by simp
    moreover have "d * e \<le> d * 1" using True e by (intro mult_left_mono) simp_all
    ultimately have "0 \<le> m" "m \<le> d"
      unfolding m_def using fl_lower [of 0 "d * e"] fl_upper [of "d * e" d] fld
      by (simp_all add: fl_zero)
    then show ?thesis by simp
  next
    case False
    then have dn: "d \<le> 0" by simp
    have "d * e \<le> 0" using dn e by (simp add: mult_nonpos_nonneg)
    moreover have "d * 1 \<le> d * e" using dn e by (intro mult_left_mono_neg) simp_all
    ultimately have "m \<le> 0" "d \<le> m"
      unfolding m_def using fl_upper [of "d * e" 0] fl_lower [of d "d * e"] fld
      by (simp_all add: fl_zero)
    then show ?thesis by simp
  qed
  then have mM: "- ?M \<le> m" "m \<le> ?M" using dM pos971 dbl by linarith+
  have rm: "round_number (d * e) = Fin m"
    unfolding m_def using mM Mlt by (intro round_number_Fin) (simp_all add: m_def)
  have "\<bar>a + m\<bar> \<le> 2 powi 1023" using between a b err by linarith
  then have "round_number (a + m) = Fin (fl (a + m)) \<and> \<bar>fl (a + m)\<bar> \<le> 2 powi 1023"
    by (intro round_number_abs) simp_all
  with rd rm show ?thesis by blast
qed

subsection \<open>The values that the interpolation reads and computes\<close>

lemma allJointNames_set: "set (allJointNames p n) = fst ` set p \<union> fst ` set n"
proof -
  have "set (foldl (\<lambda>names k. if k \<in> set names then names else names @ [k]) acc ks)
        = set acc \<union> set ks" for acc and ks :: "string list"
    by (induction ks arbitrary: acc) auto
  then show ?thesis by (simp add: allJointNames_def)
qed

lemma reads_ownD:
  assumes "reads_own p n" and "j \<in> set (allJointNames p n)" and "j \<noteq> ''__proto__''"
  shows "map_of p j = None \<Longrightarrow> j \<notin> set inheritedNames"
    and "map_of n j = None \<Longrightarrow> j \<notin> set inheritedNames"
proof -
  have "j \<in> set (map fst p @ map fst n)" using assms(2) by (simp add: allJointNames_set)
  then have "j \<in> set inheritedNames \<longrightarrow> map_of p j \<noteq> None \<and> map_of n j \<noteq> None"
    using assms(1,3) unfolding reads_own_def list_all_iff by blast
  then show "map_of p j = None \<Longrightarrow> j \<notin> set inheritedNames"
    and "map_of n j = None \<Longrightarrow> j \<notin> set inheritedNames" by blast+
qed

lemma moderate_valueOr0:
  assumes "moderate_pose q" and "map_of q j = None \<Longrightarrow> j \<notin> set inheritedNames"
  shows "\<exists>a. valueOr0 q j = Num (Fin a) \<and> \<bar>a\<bar> \<le> 2 powi 1023 - 2 powi 970"
proof (cases "map_of q j")
  case None
  have "(0::rat) \<le> 2 powi 1023 - 2 powi 970" by (simp add: pow2_nat)
  then show ?thesis using None assms(2) by (simp add: valueOr0_def)
next
  case (Some v)
  then have "(j, v) \<in> set q" by (rule map_of_SomeD)
  then have "moderate v" using assms(1) by (auto simp add: moderate_pose_def list_all_iff)
  then obtain a where "v = Fin a" and "\<bar>a\<bar> \<le> 2 ^ 1023 - 2 ^ 970"
    by (cases v) (simp_all add: moderate_def)
  then show ?thesis using Some by (simp add: valueOr0_def pow2_nat)
qed

lemma interpolatedValue_finite:
  assumes "moderate_pose p" and "moderate_pose n" and "reads_own p n"
    and "j \<in> set (allJointNames p n)" and "j \<noteq> ''__proto__''"
    and "0 \<le> e" and "e \<le> 1"
  shows "finite_value (interpolatedValue p n (Fin e) j)"
proof -
  obtain a where a: "valueOr0 p j = Num (Fin a)" "\<bar>a\<bar> \<le> 2 powi 1023 - 2 powi 970"
    using moderate_valueOr0 [OF assms(1) reads_ownD(1) [OF assms(3-5)]] by blast
  obtain b where b: "valueOr0 n j = Num (Fin b)" "\<bar>b\<bar> \<le> 2 powi 1023 - 2 powi 970"
    using moderate_valueOr0 [OF assms(2) reads_ownD(2) [OF assms(3-5)]] by blast
  from interpolation_finite [OF a(2) b(2) assms(6,7)] obtain d m r where
    "round_number (b - a) = Fin d" "round_number (d * e) = Fin m" "round_number (a + m) = Fin r"
    by blast
  then show ?thesis
    using a(1) b(1)
    by (simp add: interpolatedValue_def toNumber_def jsAdd_def fsub_def finite_value_def isFinite_def)
qed


section \<open>The events of a run\<close>

lemma log_emit [simp]: "log (emit ev w) = log w @ [(now w, ev)]"
  by (simp add: emit_def)

lemma now_emit [simp]: "now (emit ev w) = now w"
  by (simp add: emit_def)

lemma calls_emit [simp]: "calls (emit ev w) = calls w"
  by (simp add: emit_def)

lemma log_called [simp]: "log (called w) = log w"
  by (simp add: called_def)

lemma now_called [simp]: "now (called w) = now w"
  by (simp add: called_def)

lemma log_wait [simp]: "log (wait d w) = log w @ [(now w, Wait (delay d))]"
  by (simp add: wait_def)

lemma aborted_emit [simp]: "aborted en (emit ev w) = aborted en w"
  by (simp add: aborted_def split: option.splits)

lemma aborted_called [simp]: "aborted en (called w) = aborted en w"
  by (simp add: aborted_def split: option.splits)

lemma aborted_not_cancelled: "aborted en w = (\<not> not_cancelled en (now w))"
  by (auto simp add: aborted_def not_cancelled_def split: option.splits)

lemma step_imp_loop_event: "step_event en x \<Longrightarrow> loop_event en x"
  by (cases "(en, x)" rule: loop_event.cases) simp_all

lemma step_imp_loop_events: "list_all (step_event en) evs \<Longrightarrow> list_all (loop_event en) evs"
  by (simp add: list_all_iff step_imp_loop_event)

lemma frameLoop_shape:
  "frameLoop fuel en p n count frame w = Some (c, w') \<Longrightarrow>
     \<exists>evs. log w' = log w @ evs \<and> list_all (step_event en) evs"
proof (induction fuel arbitrary: frame w)
  case 0
  then show ?case by simp
next
  case (Suc fuel)
  show ?case
  proof (cases "fle (Fin (of_nat frame)) count \<and> \<not> aborted en w")
    case False
    with Suc.prems show ?thesis by auto
  next
    case guard: True
    show ?thesis
    proof (cases "throws en w")
      case True
      with guard Suc.prems show ?thesis by auto
    next
      case False
      let ?w1 = "wait frameTime (emit (SetStoreJointValues (interpolatedPose p n count frame)) (called w))"
      from guard False Suc.prems
      have "frameLoop fuel en p n count (Suc frame) ?w1 = Some (c, w')" by simp
      from Suc.IH [OF this] obtain evs
        where "log w' = log ?w1 @ evs" and "list_all (step_event en) evs" by blast
      moreover have "not_cancelled en (now w)" using guard by (simp add: aborted_not_cancelled)
      ultimately show ?thesis by simp
    qed
  qed
qed

lemma jointStep_shape:
  assumes "jointStep en js ls w = (f, ls', w')" and "\<not> aborted en w"
  shows "\<exists>evs. log w' = log w @ evs \<and> list_all (step_event en) evs"
  using assms
  by (auto simp add: jointStep_def Let_def aborted_not_cancelled split: if_splits)

lemma transitionStep_shape:
  assumes "transitionStep fuel en g s opts ls w = Some (f, ls', w')"
  shows "\<exists>evs. log w' = log w @ evs \<and> list_all (step_event en) evs"
proof -
  let ?hasEdge = "find (\<lambda>edge. source edge = currentNodeId ls) (edges g) \<noteq> None"
  let ?w1 = "if ?hasEdge then called w else w"
  have l1: "log ?w1 = log w" by simp
  show ?thesis
  proof (cases "?hasEdge \<and> throws en w")
    case True
    with assms show ?thesis by (auto simp add: transitionStep_def Let_def)
  next
    case nothrow: False
    show ?thesis
    proof (cases "smooth opts")
      case False
      with nothrow assms have "w' = wait (Fin 500) ?w1"
        by (auto simp add: transitionStep_def Let_def split: if_splits)
      then show ?thesis by auto
    next
      case sm: True
      show ?thesis
      proof (cases "previousJointPose ls")
        case None
        with sm nothrow assms have "w' = wait (Fin 500) ?w1"
          by (auto simp add: transitionStep_def Let_def split: if_splits)
        then show ?thesis by auto
      next
        case (Some p)
        show ?thesis
        proof (cases "nextJointPose g s (currentNodeId ls)")
          case None
          with sm Some nothrow assms have "w' = wait (Fin 500) ?w1"
            by (auto simp add: transitionStep_def Let_def split: if_splits)
          then show ?thesis by auto
        next
          case (Some n)
          with sm \<open>previousJointPose ls = Some p\<close> nothrow assms
          obtain c where "frameLoop fuel en p n (totalFrames (smoothness opts)) 0 ?w1 = Some (c, w')"
            by (auto simp add: transitionStep_def Let_def split: if_splits option.splits completion.splits)
          from frameLoop_shape [OF this] show ?thesis using l1 by simp
        qed
      qed
    qed
  qed
qed

lemma body_steps:
  assumes "body fuel en g s ls w = Some (f, ls', w')"
    and "\<not> throws en w"
    and "\<not> throws en (emit (SetActiveNodeId (Some (currentNodeId ls))) (called w))"
    and "\<not> aborted en w"
  shows "\<exists>evs. log w' = log w @ (now w, SetActiveNodeId (Some (currentNodeId ls))) # evs
           \<and> list_all (step_event en) evs"
proof -
  let ?w2 = "called (emit (SetActiveNodeId (Some (currentNodeId ls))) (called w))"
  have l2: "log ?w2 = log w @ [(now w, SetActiveNodeId (Some (currentNodeId ls)))]" by simp
  have a2: "\<not> aborted en ?w2" using assms(4) by simp
  have "\<exists>evs. log w' = log ?w2 @ evs \<and> list_all (step_event en) evs"
  proof (cases "find (\<lambda>n. node_id n = currentNodeId ls) (nodes g)")
    case None
    with assms(1,2,3) have "w' = ?w2" by (auto simp add: body_def Let_def)
    then show ?thesis by simp
  next
    case cn: (Some cn)
    show ?thesis
    proof (cases "getNodeState s (currentNodeId ls)")
      case None
      with cn assms(1,2,3) have "w' = ?w2" by (auto simp add: body_def Let_def)
      then show ?thesis by simp
    next
      case st: (Some st)
      consider (joint) js where "ntype st = JointNode" "joints st = Some js"
        | (trans) opts where "\<not> (ntype st = JointNode \<and> joints st \<noteq> None)"
            "ntype st = TransitionNode" "transition st = Some opts"
        | (other) "\<not> (ntype st = JointNode \<and> joints st \<noteq> None)"
            "\<not> (ntype st = TransitionNode \<and> transition st \<noteq> None)"
        by (cases "ntype st"; cases "joints st"; cases "transition st") auto
      then show ?thesis
      proof cases
        case joint
        obtain f1 ls1 w1 where js: "jointStep en js ls ?w2 = (f1, ls1, w1)"
          by (cases "jointStep en js ls ?w2") auto
        with joint cn st assms(1,2,3) have "w' = w1"
          by (auto simp add: body_def Let_def split: flow.splits)
        with jointStep_shape [OF js a2] show ?thesis by simp
      next
        case trans
        with cn st assms(1,2,3)
        obtain f1 ls1 where "transitionStep fuel en g s opts ls ?w2 = Some (f1, ls1, w')"
          by (cases "ntype st"; cases "joints st")
            (auto simp add: body_def Let_def split: flow.splits option.splits)
        from transitionStep_shape [OF this] show ?thesis .
      next
        case other
        with cn st assms(1,2,3) have "w' = ?w2"
          by (cases "ntype st"; cases "joints st"; cases "transition st")
            (auto simp add: body_def Let_def)
        then show ?thesis by simp
      qed
    qed
  qed
  then show ?thesis using l2 by simp
qed

lemma body_shape:
  assumes "body fuel en g s ls w = Some (f, ls', w')" and "\<not> aborted en w"
  shows "\<exists>evs. log w' = log w @ evs \<and> list_all (loop_event en) evs \<and> starts_with_activation evs"
proof (cases "throws en w")
  case True
  with assms(1) have "w' = w" by (auto simp add: body_def)
  then show ?thesis by (simp add: starts_with_activation_def)
next
  case nt: False
  let ?w1 = "emit (SetActiveNodeId (Some (currentNodeId ls))) (called w)"
  show ?thesis
  proof (cases "throws en ?w1")
    case True
    with nt assms(1) have "w' = ?w1" by (auto simp add: body_def Let_def)
    then show ?thesis using assms(2)
      by (simp add: starts_with_activation_def aborted_not_cancelled)
  next
    case False
    from body_steps [OF assms(1) nt False assms(2)] obtain evs
      where "log w' = log w @ (now w, SetActiveNodeId (Some (currentNodeId ls))) # evs"
        and "list_all (step_event en) evs" by blast
    then show ?thesis using assms(2)
      by (auto simp add: starts_with_activation_def step_imp_loop_events aborted_not_cancelled)
  qed
qed

lemma activation_append:
  "starts_with_activation xs \<Longrightarrow> starts_with_activation ys \<Longrightarrow> starts_with_activation (xs @ ys)"
  by (cases xs) (simp_all add: starts_with_activation_def)

lemma loop_shape:
  "loop fuel en g s ls w = Some (c, ls', w') \<Longrightarrow>
     \<exists>evs. log w' = log w @ evs \<and> list_all (loop_event en) evs \<and> starts_with_activation evs"
proof (induction fuel arbitrary: ls w)
  case 0
  then show ?case by simp
next
  case (Suc fuel)
  show ?case
  proof (cases "currentNodeId ls \<noteq> [] \<and> \<not> aborted en w")
    case False
    with Suc.prems have "w' = w" by auto
    then show ?thesis by (simp add: starts_with_activation_def)
  next
    case guard: True
    then obtain f ls1 w1 where b: "body fuel en g s ls w = Some (f, ls1, w1)"
      using Suc.prems by (cases "body fuel en g s ls w") auto
    from body_shape [OF b] guard obtain evs1
      where e1: "log w1 = log w @ evs1" "list_all (loop_event en) evs1" "starts_with_activation evs1"
      by blast
    show ?thesis
    proof (cases f)
      case Continue
      with guard b Suc.prems have "loop fuel en g s ls1 w1 = Some (c, ls', w')" by simp
      from Suc.IH [OF this] obtain evs2
        where "log w' = log w1 @ evs2" "list_all (loop_event en) evs2" "starts_with_activation evs2"
        by blast
      with e1 show ?thesis by (auto simp add: activation_append)
    next
      case Break
      with guard b Suc.prems have "w' = w1" by simp
      with e1 show ?thesis by simp
    next
      case Throw
      with guard b Suc.prems have "w' = w1" by simp
      with e1 show ?thesis by simp
    qed
  qed
qed

text \<open>The events of a run that starts: the two calls before the loop, the events of the
  loop, the two notices of the \<^verbatim>\<open>catch\<close> block if a call has thrown, and the three calls
  of the \<^verbatim>\<open>finally\<close> block.\<close>

lemma run_shape:
  assumes "runAnimation fuel en g s = Some evs" and "\<not> isAnimating s" and "startNodes g \<noteq> []"
  shows "\<exists>mid caught t.
     evs = [(0, SetAnimationAbortController True), (0, SetIsAnimating True)] @ mid @ caught
           @ [(t, SetIsAnimating False), (t, SetActiveNodeId None),
              (t, SetAnimationAbortController False)]
     \<and> list_all (loop_event en) mid \<and> starts_with_activation mid
     \<and> (caught = [] \<or> caught = [(t, ConsoleError), (t, ToastError animationError)])"
proof -
  obtain start rest where sn: "startNodes g = start # rest"
    using assms(3) by (cases "startNodes g") auto
  let ?w0 = "emit (SetIsAnimating True) (emit (SetAnimationAbortController True)
               \<lparr>now = 0, calls = 0, log = []\<rparr>)"
  let ?ls0 = "\<lparr>currentNodeId = node_id start, previousJointPose = None,
               skipNextJointApplication = False\<rparr>"
  have l0: "log ?w0 = [(0, SetAnimationAbortController True), (0, SetIsAnimating True)]"
    by simp
  obtain c ls w where lp: "loop fuel en g s ?ls0 ?w0 = Some (c, ls, w)"
    using assms(1,2) sn by (auto simp add: runAnimation_def Let_def split: option.splits)
  from loop_shape [OF lp] obtain mid
    where m: "log w = log ?w0 @ mid" "list_all (loop_event en) mid" "starts_with_activation mid"
    by blast
  show ?thesis
  proof (cases c)
    case Normal
    with assms(1,2) sn lp
    have "evs = log w @ [(now w, SetIsAnimating False), (now w, SetActiveNodeId None),
                         (now w, SetAnimationAbortController False)]"
      by (simp add: runAnimation_def Let_def)
    with m l0 show ?thesis by (intro exI [of _ mid] exI [of _ "[]"] exI [of _ "now w"]) simp
  next
    case Thrown
    with assms(1,2) sn lp
    have "evs = log w @ [(now w, ConsoleError), (now w, ToastError animationError)]
                @ [(now w, SetIsAnimating False), (now w, SetActiveNodeId None),
                   (now w, SetAnimationAbortController False)]"
      by (simp add: runAnimation_def Let_def)
    with m l0 show ?thesis
      by (intro exI [of _ mid] exI [of _ "[(now w, ConsoleError), (now w, ToastError animationError)]"]
          exI [of _ "now w"]) simp
  qed
qed


section \<open>The store while the loop runs\<close>

lemma loop_event_kinds:
  assumes "loop_event en x"
  shows "(\<exists>d. snd x = Wait d) \<or> (\<exists>q. snd x = SetStoreJointValues q) \<or> (\<exists>i. snd x = SetActiveNodeId (Some i))"
  using assms by (cases "(en, x)" rule: loop_event.cases) simp_all

lemma loop_events_no_cleanup:
  assumes "list_all (loop_event en) mid"
  shows "SetIsAnimating b \<notin> snd ` set mid" and "SetActiveNodeId None \<notin> snd ` set mid"
    and "SetAnimationAbortController b \<notin> snd ` set mid"
  using assms loop_event_kinds [of en] by (fastforce simp add: list_all_iff)+

lemma count_list_absent: "x \<notin> set xs \<Longrightarrow> count_list xs x = 0"
  by (induction xs) auto

lemma flags_at_waits_append:
  "flags_at_waits s (xs @ ys) = (flags_at_waits s xs \<and> flags_at_waits (store_after xs s) ys)"
proof (induction s xs rule: flags_at_waits.induct)
  case (1 s)
  then show ?case by (simp add: store_after_def)
next
  case (2 s d evs)
  then show ?case by (auto simp add: store_after_def)
qed (simp_all add: store_after_def)

lemma store_after_append: "store_after (xs @ ys) s = store_after ys (store_after xs s)"
  by (simp add: store_after_def)

lemma store_after_Cons: "store_after (x # xs) s = store_after xs (apply_store x s)"
  by (simp add: store_after_def)

lemma store_after_Nil: "store_after [] s = s"
  by (simp add: store_after_def)

text \<open>While a node is active and the run is animating, the events of the loop keep it so.\<close>

lemma loop_events_keep_flags:
  assumes "list_all (loop_event en) mid" and "isAnimating s" and "activeNodeId s \<noteq> None"
  shows "flags_at_waits s (map snd mid) \<and> isAnimating (store_after (map snd mid) s)
    \<and> activeNodeId (store_after (map snd mid) s) \<noteq> None"
  using assms
proof (induction mid arbitrary: s)
  case Nil
  then show ?case by (simp add: store_after_Nil)
next
  case (Cons x mid)
  obtain t ev where x: "x = (t, ev)" by (cases x)
  from Cons.prems(1) have le: "loop_event en (t, ev)" and rest: "list_all (loop_event en) mid"
    by (simp_all add: x)
  from loop_event_kinds [OF le]
  consider d where "ev = Wait d" | q where "ev = SetStoreJointValues q"
    | i where "ev = SetActiveNodeId (Some i)" by auto
  then show ?case
  proof cases
    case 1
    with Cons.IH [OF rest Cons.prems(2,3)] Cons.prems(2,3)
    show ?thesis by (simp add: x store_after_Cons flags_agree_def)
  next
    case 2
    with Cons.IH [OF rest, of "apply_store ev s"] Cons.prems(2,3)
    show ?thesis by (simp add: x store_after_Cons)
  next
    case 3
    with Cons.IH [OF rest, of "apply_store ev s"] Cons.prems(2,3)
    show ?thesis by (simp add: x store_after_Cons)
  qed
qed

lemma loop_events_flags:
  assumes "list_all (loop_event en) mid" and "starts_with_activation mid" and "isAnimating s"
  shows "flags_at_waits s (map snd mid) \<and> isAnimating (store_after (map snd mid) s)"
proof (cases mid)
  case Nil
  then show ?thesis using assms(3) by (simp add: store_after_Nil)
next
  case (Cons x rest)
  with assms(2) obtain t i where x: "x = (t, SetActiveNodeId (Some i))"
    by (cases "x" rule: is_activation.cases) (simp_all add: starts_with_activation_def)
  have "list_all (loop_event en) rest" using assms(1) Cons by simp
  from loop_events_keep_flags [OF this, of "apply_store (SetActiveNodeId (Some i)) s"] assms(3)
  show ?thesis by (simp add: Cons x store_after_Cons)
qed


section \<open>The steps of the loop body\<close>

lemma frameLoop_run:
  assumes "cancelAt en = None" and "faultAt en = None"
  shows "frame \<le> Suc N \<Longrightarrow> Suc N - frame < fuel \<Longrightarrow>
     frameLoop fuel en p n (Fin (of_nat N)) frame w
       = Some (Normal, play_frames p n (Fin (of_nat N)) frame (Suc N - frame) w)"
proof (induction fuel arbitrary: frame w)
  case 0
  then show ?case by simp
next
  case (Suc fuel)
  have na: "\<not> aborted en w'" for w' using assms(1) by (simp add: aborted_def)
  have nt: "\<not> throws en w'" for w' using assms(2) by (simp add: throws_def)
  show ?case
  proof (cases "frame \<le> N")
    case True
    then have k: "Suc N - frame = Suc (Suc N - Suc frame)" by simp
    have "Suc N - Suc frame < fuel" using Suc.prems True by simp
    with Suc.IH [of "Suc frame"] True
    have "frameLoop fuel en p n (Fin (of_nat N)) (Suc frame) w'
        = Some (Normal, play_frames p n (Fin (of_nat N)) (Suc frame) (Suc N - Suc frame) w')" for w'
      by simp
    then show ?thesis using True na nt by (simp add: k)
  next
    case False
    with Suc.prems have "frame = Suc N" by simp
    then show ?thesis by simp
  qed
qed

lemma nextJointPose_SomeD:
  assumes "nextJointPose g s nodeId = Some n"
  shows "\<exists>nextEdge st js. find (\<lambda>edge. source edge = nodeId) (edges g) = Some nextEdge
     \<and> getNodeState s (target nextEdge) = Some st \<and> ntype st = JointNode
     \<and> joints st = Some js \<and> fromEntries js = n"
  using assms by (auto simp add: nextJointPose_def split: option.splits if_splits)

text \<open>The body at a smooth transition between two poses, when it goes on to the next node.\<close>

lemma body_smooth_transition:
  assumes "getNodeState s (currentNodeId ls) = Some st" and "ntype st = TransitionNode"
    and "transition st = Some opts" and "smooth opts"
    and "previousJointPose ls = Some p" and "nextJointPose g s (currentNodeId ls) = Some n"
    and "body fuel en g s ls w = Some (Continue, ls1, w1)"
  shows "ls1 = advance (edges g) (ls\<lparr>skipNextJointApplication := True\<rparr>)"
proof -
  let ?w2 = "called (emit (SetActiveNodeId (Some (currentNodeId ls))) (called w))"
  from assms(7) have nt: "\<not> throws en w"
    "\<not> throws en (emit (SetActiveNodeId (Some (currentNodeId ls))) (called w))"
    by (auto simp add: body_def Let_def split: if_splits)
  from assms(7) nt assms(1) obtain cn where cn: "find (\<lambda>n. node_id n = currentNodeId ls) (nodes g) = Some cn"
    by (cases "find (\<lambda>n. node_id n = currentNodeId ls) (nodes g)") (auto simp add: body_def Let_def)
  from assms(1,2,3,7) nt cn obtain ls' where
    ts: "transitionStep fuel en g s opts ls ?w2 = Some (Continue, ls', w1)" and ls1: "ls1 = advance (edges g) ls'"
    by (cases "joints st")
      (auto simp add: body_def Let_def split: option.splits flow.splits)
  from ts assms(4,5,6) have "ls' = ls\<lparr>skipNextJointApplication := True\<rparr>"
    by (auto simp add: transitionStep_def Let_def split: if_splits option.splits completion.splits)
  with ls1 show ?thesis by simp
qed

text \<open>The body at a joint node with joints, the skip flag being set, when it goes on.\<close>

lemma body_joint_skipped:
  assumes "getNodeState s (currentNodeId ls) = Some st" and "ntype st = JointNode"
    and "joints st = Some js" and "skipNextJointApplication ls"
    and "body fuel en g s ls w = Some (Continue, ls2, w2)"
  shows "ls2 = advance (edges g) (ls\<lparr>skipNextJointApplication := False,
                                     previousJointPose := Some (fromEntries js)\<rparr>)
    \<and> log w2 = log w @ [(now w, SetActiveNodeId (Some (currentNodeId ls))), (now w, Wait 100)]"
proof -
  from assms(5) have nt: "\<not> throws en w"
    "\<not> throws en (emit (SetActiveNodeId (Some (currentNodeId ls))) (called w))"
    by (auto simp add: body_def Let_def split: if_splits)
  from assms(5) nt assms(1) obtain cn where cn: "find (\<lambda>n. node_id n = currentNodeId ls) (nodes g) = Some cn"
    by (cases "find (\<lambda>n. node_id n = currentNodeId ls) (nodes g)") (auto simp add: body_def Let_def)
  from assms nt cn show ?thesis
    by (auto simp add: body_def Let_def jointStep_def delay_def)
qed

lemma totalFrames_100: "totalFrames (Fin 100) = Fin 29"
  by code_simp

lemma chain_fields:
  "nodes chain = [\<lparr>node_id = ''a'', node_type = JointNode\<rparr>,
                  \<lparr>node_id = ''t'', node_type = TransitionNode\<rparr>,
                  \<lparr>node_id = ''b'', node_type = JointNode\<rparr>]"
  "edges chain = [\<lparr>edge_id = ''e1'', source = ''a'', target = ''t''\<rparr>,
                  \<lparr>edge_id = ''e2'', source = ''t'', target = ''b''\<rparr>]"
  by (simp_all add: chain_def)

lemma chain_store_states:
  "getNodeState chain_store ''a'' = Some state_a"
  "getNodeState chain_store ''t'' = Some state_t"
  "getNodeState chain_store ''b'' = Some state_b"
  by (simp_all add: getNodeState_def chain_store_def)

lemma chain_poses:
  "fromEntries [\<lparr>name = ''j'', val = Fin (- 5)\<rparr>] = pose_a"
  "fromEntries [\<lparr>name = ''j'', val = Fin tenth\<rparr>] = pose_b"
  by (simp_all add: fromEntries_def pose_a_def pose_b_def)

lemma chain_next_pose: "nextJointPose chain chain_store ''t'' = Some pose_b"
  by (simp add: nextJointPose_def chain_fields chain_store_states state_b_def chain_poses)

lemma undisturbed_never_throws: "\<not> throws undisturbed w"
  by (simp add: throws_def undisturbed_def)

text \<open>The body of the loop at each node of the chain, and the whole run, when nothing
  disturbs it.\<close>

lemma undisturbed_never_aborted: "\<not> aborted undisturbed w"
  by (simp add: aborted_def undisturbed_def)

lemma chain_body_at_a:
  "body fuel undisturbed chain chain_store at_a world_at_a = Some (Continue, at_t, world_at_t)"
proof -
  have js: "jointStep undisturbed [\<lparr>name = ''j'', val = Fin (- 5)\<rparr>] at_a w'
      = (Continue, at_a\<lparr>previousJointPose := Some pose_a\<rparr>,
         wait (Fin 1000) (emit (SetStoreJointValues (asObject pose_a)) (called w')))" for w'
    by (simp add: jointStep_def Let_def chain_poses at_a_def undisturbed_never_throws)
  have cur: "currentNodeId at_a = ''a''" by (simp add: at_a_def)
  have w: "wait (Fin 1000) (emit (SetStoreJointValues (asObject pose_a))
        (called (called (emit (SetActiveNodeId (Some ''a'')) (called world_at_a))))) = world_at_t"
    by (simp add: wait_def emit_def called_def world_at_a_def world_at_t_def delay_def pose_a_def asObject_def)
  show ?thesis
    unfolding body_def using cur
    by (simp add: Let_def undisturbed_never_throws chain_fields chain_store_states state_a_def js w)
      (simp add: at_a_def at_t_def advance_def chain_fields)
qed

lemma chain_body_at_t:
  assumes "30 < fuel"
  shows "body fuel undisturbed chain chain_store at_t world_at_t = Some (Continue, at_b, world_at_b)"
proof -
  let ?w = "called (called (emit (SetActiveNodeId (Some ''t'')) (called world_at_t)))"
  let ?opts = "\<lparr>smooth = True, smoothness = Fin 100\<rparr>"
  have "frameLoop fuel undisturbed pose_a pose_b (Fin (of_nat 29)) 0 ?w
      = Some (Normal, play_frames pose_a pose_b (Fin (of_nat 29)) 0 (Suc 29 - 0) ?w)"
    using assms by (intro frameLoop_run) (simp_all add: undisturbed_def)
  then have fl: "frameLoop fuel undisturbed pose_a pose_b (totalFrames (Fin 100)) 0 ?w
      = Some (Normal, world_at_b)"
    by (simp add: totalFrames_100 world_at_b_def)
  have ts: "transitionStep fuel undisturbed chain chain_store ?opts at_t
      (called (emit (SetActiveNodeId (Some ''t'')) (called world_at_t)))
      = Some (Continue, at_t\<lparr>skipNextJointApplication := True\<rparr>, world_at_b)"
    unfolding transitionStep_def using fl
    by (simp add: Let_def undisturbed_never_throws chain_fields chain_next_pose at_t_def)
  show ?thesis
    unfolding body_def using ts
    by (simp add: Let_def undisturbed_never_throws chain_fields chain_store_states state_t_def
        at_t_def at_b_def advance_def)
qed

lemma chain_body_at_b:
  "body fuel undisturbed chain chain_store at_b world_at_b = Some (Continue, after_b, world_after_b)"
proof -
  have js: "jointStep undisturbed [\<lparr>name = ''j'', val = Fin tenth\<rparr>] at_b w'
      = (Continue, at_b\<lparr>skipNextJointApplication := False, previousJointPose := Some pose_b\<rparr>,
         wait (Fin 100) w')" for w'
    by (simp add: jointStep_def Let_def chain_poses at_b_def)
  have cur_b: "currentNodeId at_b = ''b''" by (simp add: at_b_def)
  show ?thesis
    unfolding body_def world_after_b_def using cur_b
    by (simp add: Let_def undisturbed_never_throws chain_fields chain_store_states state_b_def js)
      (simp add: at_b_def after_b_def advance_def chain_fields)
qed

lemma chain_loop:
  assumes "30 < n"
  shows "loop (Suc (Suc (Suc (Suc n)))) undisturbed chain chain_store at_a world_at_a
     = Some (Normal, after_b, world_after_b)"
proof -
  have cur: "currentNodeId at_a = ''a''" "currentNodeId at_t = ''t''" "currentNodeId at_b = ''b''"
    "currentNodeId after_b = []"
    by (simp_all add: at_a_def at_t_def at_b_def after_b_def)
  have l0: "loop (Suc n) undisturbed chain chain_store after_b world_after_b
      = Some (Normal, after_b, world_after_b)"
    by (simp add: cur)
  have l1: "loop (Suc (Suc n)) undisturbed chain chain_store at_b world_at_b
      = Some (Normal, after_b, world_after_b)"
    using l0 by (simp add: chain_body_at_b undisturbed_never_aborted cur)
  have "30 < Suc (Suc n)" using assms by simp
  then have l2: "loop (Suc (Suc (Suc n))) undisturbed chain chain_store at_t world_at_t
      = Some (Normal, after_b, world_after_b)"
    using l1 by (simp add: chain_body_at_t undisturbed_never_aborted cur)
  show ?thesis
    using l2 by (simp add: chain_body_at_a undisturbed_never_aborted cur)
qed

lemma chain_run:
  "runAnimation 35 undisturbed chain chain_store
     = Some (log world_after_b
        @ [(now world_after_b, SetIsAnimating False), (now world_after_b, SetActiveNodeId None),
           (now world_after_b, SetAnimationAbortController False)])"
proof -
  have sn: "startNodes chain = [\<lparr>node_id = ''a'', node_type = JointNode\<rparr>]"
    by (simp add: startNodes_def chain_fields)
  have na: "\<not> isAnimating chain_store" by (simp add: chain_store_def)
  have "loop 35 undisturbed chain chain_store at_a world_at_a = Some (Normal, after_b, world_after_b)"
    using chain_loop [of 31] by simp
  then show ?thesis
    unfolding runAnimation_def
    by (simp add: sn na Let_def at_a_def world_at_a_def)
qed

section \<open>The poses of a smooth transition\<close>

lemma frameLoop_poses:
  "frameLoop fuel en p n count frame w = Some (c, w') \<Longrightarrow>
     \<exists>evs. log w' = log w @ evs
       \<and> (\<forall>t q. (t, SetStoreJointValues q) \<in> set evs \<longrightarrow>
            (\<exists>f. fle (Fin (of_nat f)) count \<and> q = interpolatedPose p n count f))"
proof (induction fuel arbitrary: frame w)
  case 0
  then show ?case by simp
next
  case (Suc fuel)
  show ?case
  proof (cases "fle (Fin (of_nat frame)) count \<and> \<not> aborted en w")
    case False
    with Suc.prems show ?thesis by auto
  next
    case guard: True
    show ?thesis
    proof (cases "throws en w")
      case True
      with guard Suc.prems show ?thesis by auto
    next
      case False
      let ?w1 = "wait frameTime (emit (SetStoreJointValues (interpolatedPose p n count frame)) (called w))"
      from guard False Suc.prems
      have "frameLoop fuel en p n count (Suc frame) ?w1 = Some (c, w')" by simp
      from Suc.IH [OF this] obtain evs
        where evs: "log w' = log ?w1 @ evs"
          "\<forall>t q. (t, SetStoreJointValues q) \<in> set evs \<longrightarrow>
            (\<exists>f. fle (Fin (of_nat f)) count \<and> q = interpolatedPose p n count f)" by blast
      let ?evs = "[(now w, SetStoreJointValues (interpolatedPose p n count frame)),
                   (now w, Wait (delay frameTime))] @ evs"
      have "log w' = log w @ ?evs" using evs(1) by simp
      moreover have "\<forall>t q. (t, SetStoreJointValues q) \<in> set ?evs \<longrightarrow>
            (\<exists>f. fle (Fin (of_nat f)) count \<and> q = interpolatedPose p n count f)"
        using evs(2) guard by auto
      ultimately show ?thesis by blast
    qed
  qed
qed

lemma interpolatedPose_finite:
  assumes "moderate_pose p" and "moderate_pose n" and "reads_own p n"
    and "frame \<le> N" and "0 < N"
  shows "finite_pose (interpolatedPose p n (Fin (of_nat N)) frame)"
proof -
  from t_range [OF assms(4,5)] obtain t
    where t: "fdiv (Fin (of_nat frame)) (Fin (of_nat N)) = Fin t" "0 \<le> t" "t \<le> 1" by blast
  from easedT_range [OF t(2,3)] obtain e
    where e: "easedT (Fin t) = Fin e" "0 \<le> e" "e \<le> 1" by blast
  show ?thesis
    using interpolatedValue_finite [OF assms(1,2,3) _ _ e(2,3)]
    by (simp add: finite_pose_def interpolatedPose_def t(1) e(1) list_all_iff del: fdiv.simps)
qed

lemma moderate_chain_poses: "moderate_pose pose_a" "moderate_pose pose_b"
  by (simp_all add: moderate_pose_def moderate_def pose_a_def pose_b_def tenth_def)

lemma reads_own_chain_poses: "reads_own pose_a pose_b"
  by (simp add: reads_own_def pose_a_def pose_b_def inheritedNames_def)


section \<open>Zero, and the largest powers of two\<close>

lemma round_number_zero: "round_number 0 = Fin 0"
  by (simp add: round_number_def fl_zero overflow_threshold_def)

lemma easedT_zero: "easedT (Fin 0) = Fin 0"
  by (simp add: easedT_def round_number_zero)

lemma threshold_powi: "overflow_threshold = 2 powi 1024"
  by (simp add: overflow_threshold_def pow2_nat)

lemma huge_difference: "fsub (Fin (- (2 ^ 1023))) (Fin (2 ^ 1023)) = NInf"
proof -
  have e: "- (2 ^ 1023) + - (2 ^ 1023) = - ((2::rat) powi 1024)"
    by (simp add: pow2_nat)
  have "fl ((2::rat) powi 1024) = 2 powi 1024" by (rule fl_pow2) simp
  then have f: "fl (- ((2::rat) powi 1024)) = - (2 powi 1024)"
    by (simp only: fl_minus)
  have "round_number (- ((2::rat) powi 1024)) = NInf"
    unfolding round_number_def Let_def f threshold_powi by simp
  then show ?thesis by (simp only: fsub_def fneg.simps fadd.simps e)
qed

lemma round_number_pow2:
  assumes "- 1022 \<le> k" and "k \<le> 1023"
  shows "round_number (2 powi k) = Fin (2 powi k)"
    and "round_number (- (2 powi k)) = Fin (- (2 powi k))"
proof -
  have "round_number (2 powi k) = Fin (fl (2 powi k))"
    using round_number_abs [of "2 powi k" k] assms by simp
  then show "round_number (2 powi k) = Fin (2 powi k)"
    using fl_pow2 [OF assms(1)] by simp
  have "round_number (- (2 powi k)) = Fin (fl (- (2 powi k)))"
    using round_number_abs [of "- (2 powi k)" k] assms by simp
  then show "round_number (- (2 powi k)) = Fin (- (2 powi k))"
    using fl_pow2 [OF assms(1)] by (simp add: fl_minus)
qed

lemma huge_is_double: "is_double (Fin (2 ^ 1023))" "is_double (Fin (- (2 ^ 1023)))"
  using round_number_pow2 [of 1023] by (simp_all add: is_double_def pow2_nat)

lemma play_frames_last:
  "log (play_frames p n count frame (Suc k) w)
     = log (play_frames p n count frame k w)
       @ [(now (play_frames p n count frame k w),
           SetStoreJointValues (interpolatedPose p n count (frame + k))),
          (now (play_frames p n count frame k w), Wait (delay frameTime))]"
proof (induction k arbitrary: frame w)
  case 0
  then show ?case by simp
next
  case (Suc k)
  let ?w1 = "wait frameTime (emit (SetStoreJointValues (interpolatedPose p n count frame)) (called w))"
  have "play_frames p n count frame (Suc (Suc k)) w = play_frames p n count (Suc frame) (Suc k) ?w1"
    by simp
  moreover have "play_frames p n count frame (Suc k) w = play_frames p n count (Suc frame) k ?w1"
    by simp
  ultimately show ?case using Suc.IH [of "Suc frame" ?w1] by simp
qed

lemma chain_last_frame:
  "interpolatedPose pose_a pose_b (Fin 29) 29 = [(''j'', Num (Fin (56294995342131 / 562949953421312)))]"
  by code_simp


section \<open>The first frame\<close>

lemma valueOr0_double:
  assumes "list_all (\<lambda>kv. is_double (snd kv)) p" and "valueOr0 p j = Num v"
  shows "is_double v"
proof (cases "map_of p j")
  case None
  then show ?thesis using assms(2)
    by (auto simp add: valueOr0_def is_double_def round_number_zero split: if_splits)
next
  case (Some u)
  then have "(j, u) \<in> set p" by (rule map_of_SomeD)
  then show ?thesis using assms Some by (auto simp add: valueOr0_def list_all_iff)
qed

text \<open>The first frame of a smooth transition publishes the previous pose, over the joint
  names of both poses (\<^verbatim>\<open>__proto__\<close> apart), a missing joint counting as 0.\<close>

lemma first_frame_is_previous_pose:
  assumes "moderate_pose p" and "moderate_pose n" and "reads_own p n"
    and "list_all (\<lambda>kv. is_double (snd kv)) p" and "0 < N"
  shows "interpolatedPose p n (Fin (of_nat N)) 0
     = map (\<lambda>jointName. (jointName, valueOr0 p jointName))
         (filter (\<lambda>jointName. jointName \<noteq> ''__proto__'') (allJointNames p n))"
proof -
  have t: "fdiv (Fin 0) (Fin (of_nat N)) = Fin 0"
    using assms(5) by (simp add: round_number_zero)
  have "interpolatedValue p n (Fin 0) j = valueOr0 p j"
    if j: "j \<in> set (allJointNames p n)" "j \<noteq> ''__proto__''" for j
  proof -
    obtain a where a: "valueOr0 p j = Num (Fin a)" "\<bar>a\<bar> \<le> 2 powi 1023 - 2 powi 970"
      using moderate_valueOr0 [OF assms(1) reads_ownD(1) [OF assms(3) j]] by blast
    obtain b where b: "valueOr0 n j = Num (Fin b)" "\<bar>b\<bar> \<le> 2 powi 1023 - 2 powi 970"
      using moderate_valueOr0 [OF assms(2) reads_ownD(2) [OF assms(3) j]] by blast
    have zero: "(0::rat) \<le> 0" "(0::rat) \<le> 1" by simp_all
    from interpolation_finite [OF a(2) b(2) zero] obtain d where
      d: "round_number (b - a) = Fin d" by blast
    have "is_double (Fin a)" using valueOr0_double [OF assms(4) a(1)] .
    then have r: "round_number a = Fin a" by (simp add: is_double_def)
    show ?thesis
      by (simp add: interpolatedValue_def toNumber_def jsAdd_def fsub_def a(1) b(1) d
          round_number_zero r)
  qed
  then show ?thesis by (simp add: interpolatedPose_def t easedT_zero del: fdiv.simps)
qed

lemma chain_values_are_doubles: "is_double (Fin (- 5))" "is_double (Fin tenth)"
  by code_simp+

lemma exact_quotient: "(500::rat) / (1000 / 60) = 30"
  by simp

lemma frameTime_above: "frameTime = Fin (50 / 3 + 1 / 844424930131968)"
  by (simp add: frameTime_value)
section \<open>The flags between the setter calls\<close>

lemma loop_events_settled:
  assumes "list_all (loop_event en) mid" and "isAnimating s" and "activeNodeId s \<noteq> None"
    and "\<And>s'. isAnimating s' \<Longrightarrow> activeNodeId s' \<noteq> None \<Longrightarrow> flags_settled False s' rest"
  shows "flags_settled False s (map snd mid @ rest)"
  using assms
proof (induction mid arbitrary: s)
  case Nil
  then show ?case by simp
next
  case (Cons x mid)
  from Cons.prems(1) have x: "loop_event en x" and mid: "list_all (loop_event en) mid" by simp_all
  have agree: "flags_agree s" using Cons.prems(2,3) by (simp add: flags_agree_def)
  from loop_event_kinds [OF x]
  consider d where "snd x = Wait d" | q where "snd x = SetStoreJointValues q"
    | i where "snd x = SetActiveNodeId (Some i)" by blast
  then show ?case
  proof cases
    case 1
    then show ?thesis using agree Cons.IH [OF mid Cons.prems(2,3,4)] by simp
  next
    case 2
    have "flags_settled False (setJointValues q s) (map snd mid @ rest)"
      using Cons.prems(2,3) by (intro Cons.IH [OF mid _ _ Cons.prems(4)]) simp_all
    then show ?thesis using agree 2 by simp
  next
    case 3
    have "flags_settled False (setActiveNodeId (Some i) s) (map snd mid @ rest)"
      using Cons.prems(2) by (intro Cons.IH [OF mid _ _ Cons.prems(4)]) simp_all
    then show ?thesis using agree 3 by simp
  qed
qed

lemma cleanup_settled:
  assumes "caught = [] \<or> caught = [(t, ConsoleError), (t, ToastError animationError)]"
    and "isAnimating s \<and> activeNodeId s \<noteq> None \<and> \<not> pending
         \<or> activeNodeId s = None \<and> pending"
  shows "flags_settled pending s (map snd caught
           @ [SetIsAnimating False, SetActiveNodeId None, SetAnimationAbortController False])"
  using assms by (auto simp add: flags_agree_def)

lemma run_settled:
  assumes "list_all (loop_event en) mid" and "starts_with_activation mid"
    and "caught = [] \<or> caught = [(t, ConsoleError), (t, ToastError animationError)]"
    and "\<not> isAnimating s" and "activeNodeId s = None"
  shows "flags_settled False s
           ([SetAnimationAbortController True, SetIsAnimating True] @ map snd mid @ map snd caught
              @ [SetIsAnimating False, SetActiveNodeId None, SetAnimationAbortController False])"
proof -
  let ?fin = "map snd caught
     @ [SetIsAnimating False, SetActiveNodeId None, SetAnimationAbortController False]"
  have agree: "flags_agree s" using assms(4,5) by (simp add: flags_agree_def)
  have "flags_settled True (setIsAnimating True s) (map snd mid @ ?fin)"
  proof (cases mid)
    case Nil
    show ?thesis unfolding Nil using assms(3,5) by (simp add: cleanup_settled)
  next
    case (Cons x rest)
    from assms(2) obtain u i where x: "x = (u, SetActiveNodeId (Some i))"
      unfolding Cons starts_with_activation_def
      by (cases x rule: is_activation.cases) simp_all
    have rest: "list_all (loop_event en) rest" using assms(1) by (simp add: Cons)
    have "flags_settled False (setActiveNodeId (Some i) (setIsAnimating True s))
            (map snd rest @ ?fin)"
      using rest
    proof (rule loop_events_settled)
      show "flags_settled False s' ?fin" if "isAnimating s'" "activeNodeId s' \<noteq> None" for s'
        using assms(3) that by (intro cleanup_settled) simp_all
    qed simp_all
    then show ?thesis by (simp add: Cons x)
  qed
  then show ?thesis using agree by simp
qed


section \<open>Cancellation\<close>

text \<open>
  Claim C1. Every timer the run waits for (the settle pause, the display pause, the fallback
  pause, each frame) is followed by a look at the abort signal before anything is
  published, so once the cancellation has been requested no \<^verbatim>\<open>setJointValues\<close> call is
  made any more: every call is made before the request, hence not later than one frame
  interval after it. (The timer that runs when the request comes is not cut short; the
  run ends when it fires.)
\<close>

theorem no_publish_after_cancel:
  assumes "runAnimation fuel en g s = Some evs" and "cancelAt en = Some c"
    and "(t, SetStoreJointValues q) \<in> set evs"
  shows "t < c \<and> t \<le> c + delay frameTime"
proof -
  have run: "\<not> isAnimating s" "startNodes g \<noteq> []"
    using assms(1,3) by (auto simp add: runAnimation_def split: if_splits list.splits)
  from run_shape [OF assms(1) run] obtain mid caught u where
    evs: "evs = [(0, SetAnimationAbortController True), (0, SetIsAnimating True)] @ mid @ caught
           @ [(u, SetIsAnimating False), (u, SetActiveNodeId None),
              (u, SetAnimationAbortController False)]"
    and mid: "list_all (loop_event en) mid"
    and caught: "caught = [] \<or> caught = [(u, ConsoleError), (u, ToastError animationError)]"
    by blast
  have "(t, SetStoreJointValues q) \<in> set mid"
    using assms(3) caught unfolding evs by auto
  then have "loop_event en (t, SetStoreJointValues q)"
    using mid unfolding list_all_iff by blast
  then have "t < c" using assms(2) by (simp add: not_cancelled_def)
  moreover have "0 \<le> delay frameTime" by (simp add: delay_def split: number.splits)
  ultimately show ?thesis by simp
qed

theorem no_publish_after_cancel_witness:
  "runAnimation 2 \<lparr>cancelAt = Some 500, faultAt = None\<rparr> chain chain_store = Some one_pose_run
   \<and> (0, SetStoreJointValues [(''j'', Num (Fin (- 5)))]) \<in> set one_pose_run
   \<and> (0::rat) < 500 \<and> 0 \<le> 500 + delay frameTime"
proof -
  have run: "runAnimation 2 \<lparr>cancelAt = Some 500, faultAt = None\<rparr> chain chain_store = Some one_pose_run"
    by code_simp
  have mem: "(0, SetStoreJointValues [(''j'', Num (Fin (- 5)))]) \<in> set one_pose_run"
    by (simp add: one_pose_run_def)
  from no_publish_after_cancel [OF run _ mem, of 500] show ?thesis
    using run mem by simp
qed

section \<open>The two animation flags\<close>

text \<open>
  Claim C2, as the code has it. The store has one setter for each flag, and a run calls
  them one after the other, so the claim cannot hold at every instant (see the
  counterexample below). In a run that starts and ends, the active node is non-null iff
  \<^verbatim>\<open>isAnimating\<close> is true whenever the run waits for a timer, and when the run has ended;
  and, if no node is active when the run is started, at every instant of the run other
  than those from a \<^verbatim>\<open>setIsAnimating\<close> call to the \<^verbatim>\<open>setActiveNodeId\<close> call that follows it.
  Nothing is said of those instants.
\<close>

theorem flags_agree_when_waiting:
  assumes "runAnimation fuel en g s = Some evs" and "\<not> isAnimating s" and "startNodes g \<noteq> []"
  shows "flags_at_waits s (map snd evs) \<and> flags_agree (store_after (map snd evs) s)
    \<and> (activeNodeId s = None \<longrightarrow> flags_settled False s (map snd evs))"
proof -
  from run_shape [OF assms] obtain mid caught t where
    evs: "evs = [(0, SetAnimationAbortController True), (0, SetIsAnimating True)] @ mid @ caught
           @ [(t, SetIsAnimating False), (t, SetActiveNodeId None),
              (t, SetAnimationAbortController False)]"
    and mid: "list_all (loop_event en) mid" and act: "starts_with_activation mid"
    and caught: "caught = [] \<or> caught = [(t, ConsoleError), (t, ToastError animationError)]"
    by blast
  let ?s1 = "store_after [SetAnimationAbortController True, SetIsAnimating True] s"
  have s1: "isAnimating ?s1" by (simp add: store_after_def)
  from loop_events_flags [OF mid act s1]
  have m: "flags_at_waits ?s1 (map snd mid)" by simp
  have split: "map snd evs = [SetAnimationAbortController True, SetIsAnimating True] @ map snd mid
      @ (map snd caught @ [SetIsAnimating False, SetActiveNodeId None, SetAnimationAbortController False])"
    by (simp add: evs)
  have tail: "flags_at_waits s' (map snd caught @ [SetIsAnimating False, SetActiveNodeId None,
      SetAnimationAbortController False])" for s'
    using caught by auto
  have pre: "flags_at_waits s [SetAnimationAbortController True, SetIsAnimating True]"
    by simp
  have "flags_at_waits ?s1 (map snd mid
      @ (map snd caught @ [SetIsAnimating False, SetActiveNodeId None, SetAnimationAbortController False]))"
    using m tail by (subst flags_at_waits_append) simp
  with pre have "flags_at_waits s (map snd evs)"
    unfolding split by (subst flags_at_waits_append) simp
  moreover have "flags_agree (store_after (map snd evs) s)"
    using caught by (auto simp add: evs store_after_append store_after_Cons store_after_Nil flags_agree_def)
  moreover have "flags_settled False s (map snd evs)" if "activeNodeId s = None"
    using run_settled [OF mid act caught assms(2) that] by (simp add: evs)
  ultimately show ?thesis by simp
qed

theorem flags_agree_when_waiting_witness:
  "runAnimation 2 undisturbed single chain_store = Some one_pose_run
   \<and> activeNodeId chain_store = None
   \<and> flags_at_waits chain_store (map snd one_pose_run)
   \<and> flags_agree (store_after (map snd one_pose_run) chain_store)
   \<and> flags_settled False chain_store (map snd one_pose_run)"
proof -
  have run: "runAnimation 2 undisturbed single chain_store = Some one_pose_run"
    by code_simp
  have none: "activeNodeId chain_store = None" by (simp add: chain_store_def)
  have "\<not> isAnimating chain_store" and "startNodes single \<noteq> []"
    by (simp_all add: chain_store_def startNodes_def single_def)
  from flags_agree_when_waiting [OF run this] show ?thesis
    using run none by simp
qed

text \<open>The claim as stated fails after the second and after the sixth event of the run
  over the single pose \<open>a\<close>: after \<^verbatim>\<open>setIsAnimating(true)\<close> and after
  \<^verbatim>\<open>setIsAnimating(false)\<close>, each time before the \<^verbatim>\<open>setActiveNodeId\<close> call that follows.\<close>

theorem flags_disagree_counterexample:
  "runAnimation 2 undisturbed single chain_store = Some one_pose_run
   \<and> flags_agree chain_store
   \<and> \<not> flags_agree (store_after (map snd (take 2 one_pose_run)) chain_store)
   \<and> \<not> flags_agree (store_after (map snd (take 6 one_pose_run)) chain_store)"
proof -
  have "runAnimation 2 undisturbed single chain_store = Some one_pose_run"
    by code_simp
  then show ?thesis
    by (simp add: one_pose_run_def chain_store_def store_after_def flags_agree_def)
qed

section \<open>The last frame of a smooth transition\<close>

text \<open>
  Claim C3 says that the last frame of a smooth transition (\<open>t = 1\<close>) publishes the next
  pose. The code computes \<^verbatim>\<open>startValue + (endValue - startValue) * 1\<close> in doubles, which
  need not be \<^verbatim>\<open>endValue\<close>: in the run of the chain, from \<open>j = -5\<close> to \<open>j = 0.1\<close>, the last
  frame publishes \<open>j = 0.09999999999999964\<close>; the next node, whose pose is skipped, only
  becomes active for 100 ms, and the run leaves the store at that value. (The first frame does publish the
  previous pose: \<open>first_frame_is_previous_pose\<close>.)
\<close>

theorem last_frame_misses_pose:
  "is_double (Fin (- 5)) \<and> is_double (Fin (3602879701896397 / 36028797018963968))
   \<and> nextJointPose chain chain_store ''t'' = Some [(''j'', Fin (3602879701896397 / 36028797018963968))]
   \<and> (\<exists>evs t u. runAnimation 35 undisturbed chain chain_store
        = Some (evs @ [(t, SetStoreJointValues [(''j'', Num (Fin (56294995342131 / 562949953421312)))]),
                       (t, Wait (delay frameTime)),
                       (u, SetActiveNodeId (Some ''b'')), (u, Wait 100),
                       (u + 100, SetIsAnimating False), (u + 100, SetActiveNodeId None),
                       (u + 100, SetAnimationAbortController False)]))
   \<and> (56294995342131 / 562949953421312 :: rat) \<noteq> 3602879701896397 / 36028797018963968"
proof -
  let ?w = "called (called (emit (SetActiveNodeId (Some ''t'')) (called world_at_t)))"
  let ?v = "play_frames pose_a pose_b (Fin 29) 0 29 ?w"
  have "log world_at_b = log (play_frames pose_a pose_b (Fin 29) 0 (Suc 29) ?w)"
    by (simp add: world_at_b_def)
  also have "\<dots> = log ?v
       @ [(now ?v, SetStoreJointValues (interpolatedPose pose_a pose_b (Fin 29) (0 + 29))),
          (now ?v, Wait (delay frameTime))]"
    by (rule play_frames_last)
  finally have b: "log world_at_b
      = log ?v @ [(now ?v, SetStoreJointValues [(''j'', Num (Fin (56294995342131 / 562949953421312)))]),
                  (now ?v, Wait (delay frameTime))]"
    using chain_last_frame by simp
  have a: "log world_after_b
      = log world_at_b @ [(now world_at_b, SetActiveNodeId (Some ''b'')), (now world_at_b, Wait 100)]"
    "now world_after_b = now world_at_b + 100"
    by (simp_all add: world_after_b_def wait_def delay_def)
  have "runAnimation 35 undisturbed chain chain_store
        = Some (log ?v @ [(now ?v, SetStoreJointValues [(''j'', Num (Fin (56294995342131 / 562949953421312)))]),
                       (now ?v, Wait (delay frameTime)),
                       (now world_at_b, SetActiveNodeId (Some ''b'')), (now world_at_b, Wait 100),
                       (now world_at_b + 100, SetIsAnimating False),
                       (now world_at_b + 100, SetActiveNodeId None),
                       (now world_at_b + 100, SetAnimationAbortController False)])"
    by (simp add: chain_run a b)
  then have "\<exists>evs t u. runAnimation 35 undisturbed chain chain_store
        = Some (evs @ [(t, SetStoreJointValues [(''j'', Num (Fin (56294995342131 / 562949953421312)))]),
                       (t, Wait (delay frameTime)),
                       (u, SetActiveNodeId (Some ''b'')), (u, Wait 100),
                       (u + 100, SetIsAnimating False), (u + 100, SetActiveNodeId None),
                       (u + 100, SetAnimationAbortController False)])"
    by blast
  moreover have "nextJointPose chain chain_store ''t''
      = Some [(''j'', Fin (3602879701896397 / 36028797018963968))]"
    by (simp add: chain_next_pose pose_b_def tenth_def)
  moreover have "is_double (Fin (- 5))"
    "is_double (Fin (3602879701896397 / 36028797018963968))"
    using chain_values_are_doubles by (simp_all add: tenth_def)
  ultimately show ?thesis by simp
qed

section \<open>The duration of a smooth transition\<close>

text \<open>
  Claim C4. The duration in ms is \<open>5000 - (s / 100) * 4500\<close>, computed in doubles; it is
  5000 for smoothness 0 and 500 for smoothness 100, it does not increase with the
  smoothness between 0 and 100, and it is there within \<open>2\<^sup>-\<^sup>3\<^sup>9\<close> ms of the exact value of
  the formula.
\<close>

theorem durationMs_mapping:
  "durationMs s = fsub (Fin 5000) (fmul (fdiv s (Fin 100)) (Fin 4500))
   \<and> durationMs (Fin 0) = Fin 5000
   \<and> durationMs (Fin 100) = Fin 500
   \<and> (0 \<le> a \<and> a \<le> b \<and> b \<le> 100 \<longrightarrow> fle (durationMs (Fin b)) (durationMs (Fin a)))
   \<and> (0 \<le> a \<and> a \<le> 100 \<longrightarrow>
        (\<exists>d. durationMs (Fin a) = Fin d \<and> \<bar>d - (5000 - (a / 100) * 4500)\<bar> \<le> 1 / 2 ^ 39))"
proof (intro conjI impI)
  show "durationMs s = fsub (Fin 5000) (fmul (fdiv s (Fin 100)) (Fin 4500))"
    by (simp add: durationMs_def span_value) (simp add: maxDuration_def)
  show "durationMs (Fin 0) = Fin 5000" by code_simp
  show "durationMs (Fin 100) = Fin 500" by code_simp
next
  assume h: "0 \<le> a \<and> a \<le> b \<and> b \<le> 100"
  then have "durationMs (Fin a) = Fin (dur a)" and "durationMs (Fin b) = Fin (dur b)"
    using durationMs_Fin [of a] durationMs_Fin [of b] by simp_all
  then show "fle (durationMs (Fin b)) (durationMs (Fin a))"
    using h dur_antimono [of a b] by simp
next
  assume h: "0 \<le> a \<and> a \<le> 100"
  then have "durationMs (Fin a) = Fin (dur a)" using durationMs_Fin [of a] by simp
  moreover have "\<bar>dur a - (5000 - (a / 100) * 4500)\<bar> \<le> 1 / 2 ^ 39"
    using h by (intro dur_close) simp_all
  ultimately show "\<exists>d. durationMs (Fin a) = Fin d \<and> \<bar>d - (5000 - (a / 100) * 4500)\<bar> \<le> 1 / 2 ^ 39"
    by blast
qed

theorem durationMs_mapping_witness:
  "fle (durationMs (Fin 50)) (durationMs (Fin (1 / 4))) \<and> durationMs (Fin 50) = Fin 2750
   \<and> \<bar>(2750::rat) - (5000 - (50 / 100) * 4500)\<bar> \<le> 1 / 2 ^ 39"
proof -
  have "durationMs (Fin 50) = Fin 2750" by code_simp
  then show ?thesis using durationMs_mapping [of "Fin 0" "1 / 4" 50] by simp
qed

section \<open>The frame count\<close>

text \<open>
  Claim C5. The frame count of a smooth transition is the floor of the duration divided
  by \<open>1000 / 60\<close>, and for smoothness 100 (500 ms) it is 29. The quotient is 30 in exact
  arithmetic (\<open>exact_quotient\<close>); the double \<open>1000 / 60\<close> lies above \<open>50 / 3\<close>
  (\<open>frameTime_above\<close>), and the double quotient below 30.
\<close>

theorem totalFrames_value:
  "totalFrames s = ffloor (fdiv (durationMs s) (fdiv (Fin 1000) (Fin 60)))
   \<and> totalFrames (Fin 100) = Fin 29"
proof
  show "totalFrames s = ffloor (fdiv (durationMs s) (fdiv (Fin 1000) (Fin 60)))"
    by (simp add: totalFrames_def frameTime_def frameRate_def)
  show "totalFrames (Fin 100) = Fin 29"
    by code_simp
qed

section \<open>A graph without a start node\<close>

text \<open>
  Claim C6. When no run is going on and every node of the graph has an incoming edge,
  \<^verbatim>\<open>runAnimation\<close> reports the "no start node" notice and does nothing else: the notice is
  the only event, whatever the fuel and the surroundings, so no joint value is published,
  the flags of the store stay as they are and no abort controller is set.
\<close>

theorem runAnimation_no_start_node:
  assumes "\<not> isAnimating s"
    and "\<forall>node \<in> set (nodes g). \<exists>edge \<in> set (edges g). target edge = node_id node"
  shows "runAnimation fuel en g s = Some [(0, ToastError noStartNode)]
    \<and> store_after [ToastError noStartNode] s = s
    \<and> component_after [ToastError noStartNode] g = g"
proof -
  have "startNodes g = []"
    using assms(2) by (auto simp add: startNodes_def list_ex_iff filter_empty_conv)
  then show ?thesis
    using assms(1) by (simp add: runAnimation_def store_after_def component_after_def)
qed

theorem runAnimation_no_start_node_witness:
  "\<not> isAnimating chain_store
   \<and> startNodes cycle = []
   \<and> runAnimation 0 undisturbed cycle chain_store = Some [(0, ToastError noStartNode)]"
  using runAnimation_no_start_node [of chain_store cycle 0 undisturbed]
  by (simp add: chain_store_def cycle_def startNodes_def)

section \<open>The cleanup at the end of a run\<close>

text \<open>
  Claim C7. A run that has started (no run was going on, a start node was found) and
  that ends, however it ends (end of the chain, missing node state, cancellation, or
  a store call that throws inside the loop), sets \<^verbatim>\<open>isAnimating\<close> to false, the active node
  to null and the abort controller to null exactly once each, as its last three actions.
\<close>

theorem cleanup_exactly_once:
  assumes "runAnimation fuel en g s = Some evs" and "\<not> isAnimating s" and "startNodes g \<noteq> []"
  shows "count_list (map snd evs) (SetIsAnimating False) = 1
    \<and> count_list (map snd evs) (SetActiveNodeId None) = 1
    \<and> count_list (map snd evs) (SetAnimationAbortController False) = 1
    \<and> map snd (drop (length evs - 3) evs)
        = [SetIsAnimating False, SetActiveNodeId None, SetAnimationAbortController False]"
proof -
  from run_shape [OF assms] obtain mid caught t where
    evs: "evs = [(0, SetAnimationAbortController True), (0, SetIsAnimating True)] @ mid @ caught
           @ [(t, SetIsAnimating False), (t, SetActiveNodeId None),
              (t, SetAnimationAbortController False)]"
    and mid: "list_all (loop_event en) mid"
    and caught: "caught = [] \<or> caught = [(t, ConsoleError), (t, ToastError animationError)]"
    by blast
  have m: "count_list (map snd mid) (SetIsAnimating False) = 0"
    "count_list (map snd mid) (SetActiveNodeId None) = 0"
    "count_list (map snd mid) (SetAnimationAbortController False) = 0"
    using loop_events_no_cleanup [OF mid] by (simp_all add: count_list_absent)
  have c: "count_list (map snd caught) (SetIsAnimating False) = 0"
    "count_list (map snd caught) (SetActiveNodeId None) = 0"
    "count_list (map snd caught) (SetAnimationAbortController False) = 0"
    using caught by auto
  show ?thesis using m c by (simp add: evs)
qed

theorem cleanup_exactly_once_witness:
  "runAnimation 1 \<lparr>cancelAt = None, faultAt = Some 2\<rparr> single chain_store = Some faulty_run
   \<and> count_list (map snd faulty_run) (SetIsAnimating False) = 1
   \<and> count_list (map snd faulty_run) (SetActiveNodeId None) = 1
   \<and> count_list (map snd faulty_run) (SetAnimationAbortController False) = 1
   \<and> map snd (drop 5 faulty_run)
       = [SetIsAnimating False, SetActiveNodeId None, SetAnimationAbortController False]"
proof -
  have run: "runAnimation 1 \<lparr>cancelAt = None, faultAt = Some 2\<rparr> single chain_store = Some faulty_run"
    by code_simp
  have "\<not> isAnimating chain_store" and "startNodes single \<noteq> []"
    by (simp_all add: chain_store_def startNodes_def single_def)
  from cleanup_exactly_once [OF run this] show ?thesis
    using run by (simp add: faulty_run_def)
qed

section \<open>The pose after a smooth transition is not applied again\<close>

text \<open>
  Claim C8. When the body of the loop has run a smooth transition from a previous pose to
  the pose of the next node and goes on, the skip flag is set and the next node is that
  joint node; the body at that node then makes no \<^verbatim>\<open>setJointValues\<close> call (it makes the
  node active and waits 100 ms, not 1000 ms), clears the flag and records the pose as
  the previous pose.
\<close>

theorem skip_after_smooth_transition:
  assumes "getNodeState s (currentNodeId ls) = Some st" and "ntype st = TransitionNode"
    and "transition st = Some opts" and "smooth opts"
    and "previousJointPose ls = Some p" and "nextJointPose g s (currentNodeId ls) = Some n"
    and "body fuel en g s ls w = Some (Continue, ls1, w1)"
    and "body fuel' en g s ls1 w1 = Some (Continue, ls2, w2)"
  shows "skipNextJointApplication ls1
    \<and> (\<exists>st1 js. getNodeState s (currentNodeId ls1) = Some st1 \<and> ntype st1 = JointNode
          \<and> joints st1 = Some js \<and> fromEntries js = n)
    \<and> log w2 = log w1 @ [(now w1, SetActiveNodeId (Some (currentNodeId ls1))), (now w1, Wait 100)]
    \<and> \<not> skipNextJointApplication ls2
    \<and> previousJointPose ls2 = Some n"
proof -
  from body_smooth_transition [OF assms(1-7)]
  have ls1: "ls1 = advance (edges g) (ls\<lparr>skipNextJointApplication := True\<rparr>)" .
  from nextJointPose_SomeD [OF assms(6)] obtain nextEdge st1 js where
    e: "find (\<lambda>edge. source edge = currentNodeId ls) (edges g) = Some nextEdge"
    and st1: "getNodeState s (target nextEdge) = Some st1" "ntype st1 = JointNode"
      "joints st1 = Some js" "fromEntries js = n"
    by blast
  have cur: "currentNodeId ls1 = target nextEdge" and skip: "skipNextJointApplication ls1"
    using e by (simp_all add: ls1 advance_def)
  from st1 cur have st1': "getNodeState s (currentNodeId ls1) = Some st1" by simp
  from body_joint_skipped [OF st1' st1(2,3) skip assms(8)] st1(4)
  have "\<not> skipNextJointApplication ls2" "previousJointPose ls2 = Some n"
    "log w2 = log w1 @ [(now w1, SetActiveNodeId (Some (currentNodeId ls1))), (now w1, Wait 100)]"
    by (simp_all add: advance_def)
  with skip st1' st1 show ?thesis by blast
qed

theorem skip_after_smooth_transition_witness:
  "body 31 undisturbed chain chain_store at_t world_at_t = Some (Continue, at_b, world_at_b)
   \<and> body 0 undisturbed chain chain_store at_b world_at_b = Some (Continue, after_b, world_after_b)
   \<and> skipNextJointApplication at_b
   \<and> log world_after_b
       = log world_at_b @ [(now world_at_b, SetActiveNodeId (Some ''b'')), (now world_at_b, Wait 100)]
   \<and> \<not> skipNextJointApplication after_b
   \<and> previousJointPose after_b = Some pose_b"
proof -
  have st: "getNodeState chain_store (currentNodeId at_t) = Some state_t"
    "ntype state_t = TransitionNode"
    "transition state_t = Some \<lparr>smooth = True, smoothness = Fin 100\<rparr>"
    "smooth \<lparr>smooth = True, smoothness = Fin 100\<rparr>"
    "previousJointPose at_t = Some pose_a"
    "nextJointPose chain chain_store (currentNodeId at_t) = Some pose_b"
    by (simp_all add: chain_store_states chain_next_pose at_t_def state_t_def)
  have b1: "body 31 undisturbed chain chain_store at_t world_at_t = Some (Continue, at_b, world_at_b)"
    by (rule chain_body_at_t) simp
  have b2: "body 0 undisturbed chain chain_store at_b world_at_b = Some (Continue, after_b, world_after_b)"
    by (rule chain_body_at_b)
  from skip_after_smooth_transition [OF st b1 b2] show ?thesis
    using b1 b2 by (simp add: at_b_def)
qed

section \<open>Deleting a node leaves no dangling edge\<close>

text \<open>
  Claim C9. For every node id, \<^verbatim>\<open>handleDeleteNode\<close> removes every edge whose source or
  target is the deleted node (and no other edge), and the node itself; so a graph in
  which every edge joins two of its nodes is still such a graph after the deletion.
\<close>

theorem handleDeleteNode_no_dangling:
  "(\<forall>edge \<in> set (edges (handleDeleteNode nodeId g)). source edge \<noteq> nodeId \<and> target edge \<noteq> nodeId)
   \<and> set (edges (handleDeleteNode nodeId g))
       = {edge \<in> set (edges g). source edge \<noteq> nodeId \<and> target edge \<noteq> nodeId}
   \<and> nodeId \<notin> node_id ` set (nodes (handleDeleteNode nodeId g))
   \<and> (no_dangling g \<longrightarrow> no_dangling (handleDeleteNode nodeId g))"
  by (auto simp add: handleDeleteNode_def no_dangling_def list_all_iff)

theorem handleDeleteNode_no_dangling_witness:
  "no_dangling chain \<and> no_dangling (handleDeleteNode ''t'' chain)
   \<and> edges (handleDeleteNode ''t'' chain) = []
   \<and> map node_id (nodes (handleDeleteNode ''t'' chain)) = [''a'', ''b'']"
  using handleDeleteNode_no_dangling [of "''t''" chain]
  by (simp add: chain_def handleDeleteNode_def no_dangling_def)


section \<open>The frames of a smooth transition are defined\<close>

text \<open>
  Claim C10, as the code has it. For a smoothness between 0 and 100 the frame count is a
  number of at least 29 frames, so the normalised time of a frame is never a division by
  zero; and every joint value of every frame, hence every value the transition
  publishes, is a finite number, when two things hold. The joint values of both poses
  are finite and of magnitude at most \<open>2\<^sup>1\<^sup>0\<^sup>2\<^sup>3 - 2\<^sup>9\<^sup>7\<^sup>0\<close>, which for a double is to be
  of magnitude below \<open>2\<^sup>1\<^sup>0\<^sup>2\<^sup>3\<close> (\<open>double_is_moderate\<close>). And every joint name that is also the
  name of a property of \<^verbatim>\<open>Object.prototype\<close> (\<^verbatim>\<open>__proto__\<close> apart, which no frame has) is a
  joint of both poses.
\<close>

theorem interpolated_values_finite:
  assumes "0 \<le> s" and "s \<le> 100" and "moderate_pose p" and "moderate_pose n"
    and "reads_own p n"
  shows "\<exists>N::nat. totalFrames (Fin s) = Fin (of_nat N) \<and> 29 \<le> N
    \<and> (\<forall>frame \<le> N. isFinite (fdiv (Fin (of_nat frame)) (totalFrames (Fin s)))
          \<and> finite_pose (interpolatedPose p n (totalFrames (Fin s)) frame))
    \<and> (\<forall>fuel en w c w'. frameLoop fuel en p n (totalFrames (Fin s)) 0 w = Some (c, w') \<longrightarrow>
          (\<exists>evs. log w' = log w @ evs
             \<and> (\<forall>t q. (t, SetStoreJointValues q) \<in> set evs \<longrightarrow> finite_pose q)))"
proof -
  from totalFrames_Fin [OF assms(1,2)] obtain N :: nat
    where N: "totalFrames (Fin s) = Fin (of_nat N)" "29 \<le> N" by blast
  then have pos: "0 < N" by simp
  have frames: "isFinite (fdiv (Fin (of_nat frame)) (Fin (of_nat N)))
      \<and> finite_pose (interpolatedPose p n (Fin (of_nat N)) frame)" if "frame \<le> N" for frame
  proof -
    from t_range [OF that pos] have "isFinite (fdiv (Fin (of_nat frame)) (Fin (of_nat N)))"
      by (auto simp add: isFinite_def simp del: fdiv.simps)
    then show ?thesis using interpolatedPose_finite [OF assms(3,4,5) that pos] by simp
  qed
  have loop: "\<exists>evs. log w' = log w @ evs
             \<and> (\<forall>t q. (t, SetStoreJointValues q) \<in> set evs \<longrightarrow> finite_pose q)"
    if "frameLoop fuel en p n (Fin (of_nat N)) 0 w = Some (c, w')" for fuel en w c w'
  proof -
    from frameLoop_poses [OF that] obtain evs where evs: "log w' = log w @ evs"
      "\<forall>t q. (t, SetStoreJointValues q) \<in> set evs \<longrightarrow>
         (\<exists>f. fle (Fin (of_nat f)) (Fin (of_nat N)) \<and> q = interpolatedPose p n (Fin (of_nat N)) f)"
      by blast
    have "finite_pose q" if "(t, SetStoreJointValues q) \<in> set evs" for t q
    proof -
      from evs(2) that obtain f where "f \<le> N" "q = interpolatedPose p n (Fin (of_nat N)) f"
        by auto
      then show ?thesis using frames by simp
    qed
    with evs(1) show ?thesis by blast
  qed
  show ?thesis
    using N frames loop by (intro exI [of _ N]) (simp only: N, blast)
qed

theorem interpolated_values_finite_witness:
  "moderate_pose pose_a \<and> moderate_pose pose_b \<and> reads_own pose_a pose_b
   \<and> totalFrames (Fin 100) = Fin 29
   \<and> isFinite (fdiv (Fin (of_nat 29)) (totalFrames (Fin 100)))
   \<and> finite_pose (interpolatedPose pose_a pose_b (totalFrames (Fin 100)) 29)"
proof -
  from interpolated_values_finite [of 100 pose_a pose_b] moderate_chain_poses reads_own_chain_poses
  obtain N :: nat where N: "totalFrames (Fin 100) = Fin (of_nat N)"
    and all: "\<forall>frame \<le> N. isFinite (fdiv (Fin (of_nat frame)) (totalFrames (Fin 100)))
          \<and> finite_pose (interpolatedPose pose_a pose_b (totalFrames (Fin 100)) frame)"
    by auto
  from N have "N = 29" by (simp add: totalFrames_100)
  with all [rule_format, of 29] show ?thesis
    using moderate_chain_poses reads_own_chain_poses totalFrames_100 by (simp del: fdiv.simps)
qed

text \<open>
  Without the bound the claim fails: from the pose \<open>2\<^sup>1\<^sup>0\<^sup>2\<^sup>3\<close> to the pose \<open>-2\<^sup>1\<^sup>0\<^sup>2\<^sup>3\<close> (both
  doubles) the difference overflows to \<open>-\<infinity>\<close>, and the frame 0, which multiplies it by 0,
  publishes \<^verbatim>\<open>NaN\<close>. Without the condition on the names it fails too: between a pose of
  the joint \<open>j\<close> alone and a pose of the joint \<open>constructor\<close> alone, the frame 0 publishes
  a string for \<open>constructor\<close> one way, and \<^verbatim>\<open>NaN\<close> the other way.
\<close>

theorem overflow_counterexample:
  "is_double (Fin (2 ^ 1023)) \<and> is_double (Fin (- (2 ^ 1023)))
   \<and> interpolatedPose huge_pose minus_huge_pose (totalFrames (Fin 100)) 0 = [(''j'', Num NaN)]
   \<and> \<not> finite_pose (interpolatedPose huge_pose minus_huge_pose (totalFrames (Fin 100)) 0)
   \<and> interpolatedPose pose_j pose_constructor (totalFrames (Fin 100)) 0
       = [(''j'', Num (Fin 1)), (''constructor'', Str)]
   \<and> \<not> finite_pose (interpolatedPose pose_j pose_constructor (totalFrames (Fin 100)) 0)
   \<and> interpolatedPose pose_constructor pose_j (totalFrames (Fin 100)) 0
       = [(''constructor'', Num NaN), (''j'', Num (Fin 0))]
   \<and> \<not> finite_pose (interpolatedPose pose_constructor pose_j (totalFrames (Fin 100)) 0)"
proof -
  have names: "allJointNames huge_pose minus_huge_pose = [''j'']"
    by (simp add: allJointNames_def huge_pose_def minus_huge_pose_def)
  have t: "fdiv (Fin (of_nat 0)) (totalFrames (Fin 100)) = Fin 0"
    by (simp add: totalFrames_100 round_number_zero)
  have v: "valueOr0 huge_pose ''j'' = Num (Fin (2 ^ 1023))"
    "valueOr0 minus_huge_pose ''j'' = Num (Fin (- (2 ^ 1023)))"
    by (simp_all add: valueOr0_def huge_pose_def minus_huge_pose_def)
  have "interpolatedValue huge_pose minus_huge_pose (Fin 0) ''j'' = Num NaN"
    unfolding interpolatedValue_def Let_def v toNumber_def jsvalue.case huge_difference
    by (simp add: jsAdd_def)
  then have huge: "interpolatedPose huge_pose minus_huge_pose (totalFrames (Fin 100)) 0
      = [(''j'', Num NaN)]"
    unfolding interpolatedPose_def Let_def t easedT_zero names by simp
  have one: "interpolatedPose pose_j pose_constructor (Fin 29) 0
      = [(''j'', Num (Fin 1)), (''constructor'', Str)]"
    by code_simp
  have other: "interpolatedPose pose_constructor pose_j (Fin 29) 0
      = [(''constructor'', Num NaN), (''j'', Num (Fin 0))]"
    by code_simp
  show ?thesis
    using huge_is_double huge one other
    by (simp add: totalFrames_100 finite_pose_def finite_value_def isFinite_def)
qed

end
